theory Spec2Isabelle
  imports Main "HOL-Library.AList" "HOL-Library.Sublist"
begin

section \<open>Project storage of the workspace: a model of storage.ts\<close>

text \<open>
  The theory follows \<^verbatim>\<open>packages/shared/src/projects/storage.ts\<close>. A JavaScript
  string is modelled as a list of 8-bit characters; the functions of the runtime that
  the source calls (\<^verbatim>\<open>toLowerCase\<close>, \<^verbatim>\<open>replace\<close> with the two regular
  expressions of the source, \<^verbatim>\<open>substring\<close>, \<^verbatim>\<open>path.join\<close>, the \<^verbatim>\<open>fs\<close>
  calls, \<^verbatim>\<open>JSON.stringify\<close> and \<^verbatim>\<open>JSON.parse\<close>) are written out on that
  character range.
\<close>

subsection \<open>Characters and strings\<close>

definition code :: "char \<Rightarrow> nat" where
  "code c = of_char c"

definition is_az09 :: "char \<Rightarrow> bool" where
  \<comment> \<open>the character class \<^verbatim>\<open>[a-z0-9]\<close>\<close>
  "is_az09 c = ((97 \<le> code c \<and> code c \<le> 122) \<or> (48 \<le> code c \<and> code c \<le> 57))"

definition is_alnum :: "char \<Rightarrow> bool" where
  \<comment> \<open>an ASCII letter or digit\<close>
  "is_alnum c = (is_az09 c \<or> (65 \<le> code c \<and> code c \<le> 90))"

definition toLowerCase_char :: "char \<Rightarrow> char" where
  \<comment> \<open>\<^verbatim>\<open>A-Z\<close> and the capital letters of Latin-1 (U+00C0 to U+00DE without the
      multiplication sign U+00D7) move up by 32; every other character stays\<close>
  "toLowerCase_char c =
     (if 65 \<le> code c \<and> code c \<le> 90 then char_of (code c + 32)
      else if 192 \<le> code c \<and> code c \<le> 222 \<and> code c \<noteq> 215 then char_of (code c + 32)
      else c)"

definition toLowerCase :: "string \<Rightarrow> string" where
  "toLowerCase s = map toLowerCase_char s"

function replace_runs :: "string \<Rightarrow> string" where
  \<comment> \<open>\<^verbatim>\<open>.replace(/[^a-z0-9]+/g, '-')\<close>: every maximal run of characters outside
      \<^verbatim>\<open>[a-z0-9]\<close> becomes one dash\<close>
  "replace_runs [] = []"
| "replace_runs (c # cs) =
     (if is_az09 c then c # replace_runs cs
      else CHR ''-'' # replace_runs (dropWhile (\<lambda>x. \<not> is_az09 x) cs))"
  by pat_completeness auto
termination
  by (relation "measure length") (auto simp: less_Suc_eq_le length_dropWhile_le)

definition strip_dashes :: "string \<Rightarrow> string" where
  \<comment> \<open>\<^verbatim>\<open>.replace(/^-|-$/g, '')\<close>: one dash at the start is removed, then one dash
      at the end of what is left\<close>
  "strip_dashes s =
     (let s1 = (case s of [] \<Rightarrow> [] | c # cs \<Rightarrow> if c = CHR ''-'' then cs else s)
      in if s1 \<noteq> [] \<and> last s1 = CHR ''-'' then butlast s1 else s1)"

definition substring0 :: "nat \<Rightarrow> string \<Rightarrow> string" where
  \<comment> \<open>\<^verbatim>\<open>.substring(0, n)\<close>\<close>
  "substring0 n s = take n s"

definition generateSlug :: "string \<Rightarrow> string" where
  "generateSlug name =
     (let slug = substring0 50 (strip_dashes (replace_runs (toLowerCase name)))
      in if slug = [] then ''project'' else slug)"

subsection \<open>Paths\<close>

text \<open>
  Paths are absolute. A \<open>path\<close> is the list of the segments below the root of the
  file system; a \<open>filepath\<close> is a path string as \<^verbatim>\<open>path.join\<close> returns it: its
  segments, and whether the string ends with a separator. \<^verbatim>\<open>path.join\<close> puts a
  separator between its non-empty arguments and normalises: empty segments and
  \<^verbatim>\<open>.\<close> disappear, \<^verbatim>\<open>..\<close> removes the segment before it and stays at the root
  when there is none, and a trailing separator of the joined string is kept (the root
  itself apart). The workspace root is given by its segments: it is only ever joined with
  a non-empty name, so a separator at its end changes nothing.
\<close>

type_synonym path = "string list"

type_synonym filepath = "path \<times> bool"

fun split_slash :: "string \<Rightarrow> string list" where
  "split_slash [] = [[]]"
| "split_slash (c # cs) =
     (if c = CHR ''/'' then [] # split_slash cs
      else (case split_slash cs of [] \<Rightarrow> [[c]] | w # ws \<Rightarrow> (c # w) # ws))"

definition norm_step :: "path \<Rightarrow> string \<Rightarrow> path" where
  "norm_step acc seg =
     (if seg = [] \<or> seg = ''.'' then acc
      else if seg = ''..'' then butlast acc
      else acc @ [seg])"

definition normalize :: "string list \<Rightarrow> path" where
  "normalize segs = foldl norm_step [] segs"

definition join :: "filepath \<Rightarrow> string \<Rightarrow> filepath" where
  "join base s =
     (let segs = normalize (fst base @ split_slash s);
          trailingSeparator = (if s = [] then snd base else last s = CHR ''/'')
      in (segs, trailingSeparator \<and> segs \<noteq> []))"

fun relative_segs :: "path \<Rightarrow> path \<Rightarrow> string list" where
  "relative_segs (a # as) (b # bs) =
     (if a = b then relative_segs as bs else replicate (length (a # as)) ''..'' @ (b # bs))"
| "relative_segs as bs = replicate (length as) ''..'' @ bs"

fun join_slash :: "string list \<Rightarrow> string" where
  "join_slash [] = []"
| "join_slash [s] = s"
| "join_slash (s # ss) = s @ ''/'' @ join_slash ss"

definition relative :: "filepath \<Rightarrow> filepath \<Rightarrow> string" where
  \<comment> \<open>\<^verbatim>\<open>path.relative(from, to)\<close> on two normalised absolute paths; a trailing
      separator is dropped when the arguments are resolved\<close>
  "relative from to = join_slash (relative_segs (fst from) (fst to))"

definition getWorkspaceProjectsPath :: "path \<Rightarrow> filepath" where
  "getWorkspaceProjectsPath workspaceRootPath = join (workspaceRootPath, False) ''projects''"

definition getProjectPath :: "path \<Rightarrow> string \<Rightarrow> filepath" where
  "getProjectPath workspaceRootPath projectSlug =
     join (getWorkspaceProjectsPath workspaceRootPath) projectSlug"

definition getProjectFilesPath :: "path \<Rightarrow> string \<Rightarrow> filepath" where
  "getProjectFilesPath workspaceRootPath projectSlug =
     join (getProjectPath workspaceRootPath projectSlug) ''files''"

subsection \<open>The file system\<close>

text \<open>
  The disk is a tree. A directory lists its entries in the order \<^verbatim>\<open>readdirSync\<close>
  returns them; a name is looked up at its first entry. \<open>Other\<close> is an entry that is
  neither a regular file nor a directory (a socket, a FIFO, a device). Symbolic links and
  permissions are not modelled. A file holds the text written to it.

  The functions on segment lists (\<open>lookup\<close>, \<open>put\<close>, \<open>remove\<close>, \<open>mkdir_p\<close>,
  \<open>write_at\<close>, \<open>unlink_at\<close>, \<open>rename_at\<close>) are the system calls on a resolved name.
  The functions of \<^verbatim>\<open>fs\<close> take a \<open>filepath\<close>: as in POSIX (and Linux), a path that
  ends with a separator names a directory or nothing, so that it resolves to no regular
  file, cannot be opened for writing, and is the new name of a directory only.
\<close>

datatype node = File string | Dir "(string \<times> node) list" | Other

datatype errno =
  ENOENT | ENOTDIR | EISDIR | EEXIST | EINVAL | ENOTEMPTY | EBUSY | ENXIO
  | ERR_INVALID_ARG_TYPE  \<comment> \<open>the \<^verbatim>\<open>TypeError\<close> for data that is not a string\<close>

fun lookup :: "node \<Rightarrow> path \<Rightarrow> node option" where
  "lookup n [] = Some n"
| "lookup (Dir es) (s # p) = (case map_of es s of None \<Rightarrow> None | Some c \<Rightarrow> lookup c p)"
| "lookup _ (s # p) = None"

fun is_dir :: "node option \<Rightarrow> bool" where
  "is_dir (Some (Dir es)) = True"
| "is_dir _ = False"

fun is_Dir :: "node \<Rightarrow> bool" where
  "is_Dir (Dir es) = True"
| "is_Dir n = False"

definition resolve :: "node \<Rightarrow> filepath \<Rightarrow> node option" where
  \<comment> \<open>what a path string names: with a trailing separator, a directory or nothing\<close>
  "resolve fs p =
     (case lookup fs (fst p) of
        None \<Rightarrow> None
      | Some n \<Rightarrow> if snd p \<and> \<not> is_Dir n then None else Some n)"

definition missing :: "node \<Rightarrow> filepath \<Rightarrow> errno" where
  \<comment> \<open>the error for a path that names nothing\<close>
  "missing fs p = (if lookup fs (fst p) = None then ENOENT else ENOTDIR)"

definition existsSync :: "node \<Rightarrow> filepath \<Rightarrow> bool" where
  "existsSync fs p = (resolve fs p \<noteq> None)"

fun modify :: "path \<Rightarrow> (node \<Rightarrow> node) \<Rightarrow> node \<Rightarrow> node" where
  \<comment> \<open>apply \<open>f\<close> to the node at a path, when there is one\<close>
  "modify [] f n = f n"
| "modify (s # p) f (Dir es) = Dir (AList.map_entry s (modify p f) es)"
| "modify (s # p) f n = n"

fun set_entry :: "string \<Rightarrow> node \<Rightarrow> node \<Rightarrow> node" where
  "set_entry name new (Dir es) = Dir (AList.update name new es)"
| "set_entry name new n = n"

fun del_entry :: "string \<Rightarrow> node \<Rightarrow> node" where
  "del_entry name (Dir es) = Dir (AList.delete name es)"
| "del_entry name n = n"

definition put :: "path \<Rightarrow> node \<Rightarrow> node \<Rightarrow> node" where
  \<comment> \<open>the node \<open>new\<close> under the last segment of \<open>p\<close>, in the directory before it\<close>
  "put p new fs = (if p = [] then new else modify (butlast p) (set_entry (last p) new) fs)"

definition remove :: "path \<Rightarrow> node \<Rightarrow> node" where
  "remove p fs = (if p = [] then fs else modify (butlast p) (del_entry (last p)) fs)"

fun mkdir_p :: "path \<Rightarrow> node \<Rightarrow> errno + node" where
  \<comment> \<open>\<^verbatim>\<open>mkdirSync(p, { recursive: true })\<close>\<close>
  "mkdir_p [] (Dir es) = Inr (Dir es)"
| "mkdir_p [] n = Inl EEXIST"
| "mkdir_p (s # p) (Dir es) =
     (case map_of es s of
        None \<Rightarrow> (case mkdir_p p (Dir []) of
                   Inl e \<Rightarrow> Inl e
                 | Inr c \<Rightarrow> Inr (Dir (AList.update s c es)))
      | Some c \<Rightarrow> (case mkdir_p p c of
                   Inl e \<Rightarrow> Inl e
                 | Inr c' \<Rightarrow> Inr (Dir (AList.update s c' es))))"
| "mkdir_p (s # p) n = Inl ENOTDIR"

definition mkdirSync :: "filepath \<Rightarrow> node \<Rightarrow> errno + node" where
  \<comment> \<open>a trailing separator makes no difference to \<^verbatim>\<open>mkdir\<close>\<close>
  "mkdirSync p fs = mkdir_p (fst p) fs"

definition write_at :: "path \<Rightarrow> string \<Rightarrow> node \<Rightarrow> errno + node" where
  "write_at p content fs =
     (if p = [] then Inl EISDIR
      else case lookup fs (butlast p) of
             None \<Rightarrow> Inl ENOENT
           | Some (Dir es) \<Rightarrow>
               (case lookup fs p of
                  Some (Dir ds) \<Rightarrow> Inl EISDIR
                | Some Other \<Rightarrow> Inl ENXIO
                | _ \<Rightarrow> Inr (put p (File content) fs))
           | Some _ \<Rightarrow> Inl ENOTDIR)"

definition writeFileSync :: "filepath \<Rightarrow> string \<Rightarrow> node \<Rightarrow> errno + node" where
  \<comment> \<open>\<^verbatim>\<open>open\<close> for writing refuses a name that ends with a separator\<close>
  "writeFileSync p content fs =
     (if snd p then Inl (if is_dir (lookup fs (fst p)) then EISDIR else missing fs p)
      else write_at (fst p) content fs)"

definition readFileSync :: "filepath \<Rightarrow> node \<Rightarrow> errno + string" where
  "readFileSync p fs =
     (case resolve fs p of
        None \<Rightarrow> Inl (missing fs p)
      | Some (File c) \<Rightarrow> Inr c
      | Some (Dir es) \<Rightarrow> Inl EISDIR
      | Some Other \<Rightarrow> Inl ENXIO)"

definition unlink_at :: "path \<Rightarrow> node \<Rightarrow> errno + node" where
  "unlink_at p fs =
     (case lookup fs p of
        None \<Rightarrow> Inl ENOENT
      | Some (Dir es) \<Rightarrow> Inl EISDIR
      | Some _ \<Rightarrow> (if p = [] then Inl EBUSY else Inr (remove p fs)))"

definition unlinkSync :: "filepath \<Rightarrow> node \<Rightarrow> errno + node" where
  "unlinkSync p fs =
     (if resolve fs p = None then Inl (missing fs p) else unlink_at (fst p) fs)"

definition rm_at :: "path \<Rightarrow> node \<Rightarrow> errno + node" where
  "rm_at p fs =
     (case lookup fs p of
        None \<Rightarrow> Inl ENOENT
      | Some _ \<Rightarrow> (if p = [] then Inl EBUSY else Inr (remove p fs)))"

definition rmSync :: "filepath \<Rightarrow> node \<Rightarrow> errno + node" where
  \<comment> \<open>\<^verbatim>\<open>rmSync(p, { recursive: true })\<close>\<close>
  "rmSync p fs =
     (if resolve fs p = None then Inl (missing fs p) else rm_at (fst p) fs)"

definition rename_at :: "path \<Rightarrow> path \<Rightarrow> node \<Rightarrow> errno + node" where
  \<comment> \<open>POSIX \<^verbatim>\<open>rename\<close>: a directory replaces only an empty directory, a file only
      a non-directory, and nothing moves into itself\<close>
  "rename_at old new fs =
     (case lookup fs old of
        None \<Rightarrow> Inl ENOENT
      | Some n \<Rightarrow>
          if new = [] \<or> old = [] then Inl EBUSY
          else if \<not> is_dir (lookup fs (butlast new)) then
            (if lookup fs (butlast new) = None then Inl ENOENT else Inl ENOTDIR)
          else if old = new then Inr fs
          else if is_dir (Some n) \<and> take (length old) new = old then Inl EINVAL
          else (case lookup fs new of
                  None \<Rightarrow> Inr (put new n (remove old fs))
                | Some (Dir ds) \<Rightarrow>
                    if \<not> is_dir (Some n) then Inl EISDIR
                    else if ds \<noteq> [] then Inl ENOTEMPTY
                    else Inr (put new n (remove old fs))
                | Some _ \<Rightarrow>
                    if is_dir (Some n) then Inl ENOTDIR
                    else Inr (put new n (remove old fs))))"

definition renameSync :: "filepath \<Rightarrow> filepath \<Rightarrow> node \<Rightarrow> errno + node" where
  \<comment> \<open>a name that ends with a separator is the old or the new name of a directory only\<close>
  "renameSync old new fs =
     (case resolve fs old of
        None \<Rightarrow> Inl (missing fs old)
      | Some n \<Rightarrow>
          if snd new \<and> \<not> is_Dir n then Inl ENOTDIR
          else rename_at (fst old) (fst new) fs)"

text \<open>
  A normalised path has no empty, \<^verbatim>\<open>.\<close> or \<^verbatim>\<open>..\<close> segment; a simple segment is
  a name that \<open>join\<close> appends as it is.
\<close>

definition is_clean :: "path \<Rightarrow> bool" where
  "is_clean p = (\<forall>s\<in>set p. s \<noteq> [] \<and> s \<noteq> ''.'' \<and> s \<noteq> ''..'')"

definition simple_segment :: "string \<Rightarrow> bool" where
  "simple_segment s = (s \<noteq> [] \<and> s \<noteq> ''.'' \<and> s \<noteq> ''..'' \<and> CHR ''/'' \<notin> set s)"

subsection \<open>Counting and listing the files of a project\<close>

text \<open>
  \<^verbatim>\<open>countFiles\<close> and \<^verbatim>\<open>listProjectFiles\<close> call themselves on
  \<^verbatim>\<open>join(dirPath, entry.name)\<close>. The model descends into the entry's own subtree,
  which is what that path names when entry names are single segments. \<open>readdirSync\<close> of
  something that is not a directory throws, and both functions catch it.
\<close>

fun countFiles_node :: "node \<Rightarrow> nat"
  and countFiles_entries :: "(string \<times> node) list \<Rightarrow> nat" where
  "countFiles_node (Dir es) = countFiles_entries es"
| "countFiles_node (File c) = 0"
| "countFiles_node Other = 0"
| "countFiles_entries [] = 0"
| "countFiles_entries ((name, File c) # es) = 1 + countFiles_entries es"
| "countFiles_entries ((name, Dir ds) # es) = countFiles_node (Dir ds) + countFiles_entries es"
| "countFiles_entries ((name, Other) # es) = countFiles_entries es"

definition countFiles :: "node \<Rightarrow> filepath \<Rightarrow> nat" where
  "countFiles fs dirPath =
     (case resolve fs dirPath of None \<Rightarrow> 0 | Some n \<Rightarrow> countFiles_node n)"

datatype file_type = TFile | TDirectory

datatype ProjectFile =
  ProjectFile (pf_name: string) (pf_path: string) (pf_type: file_type)
    (pf_size: "nat option") (pf_children: "ProjectFile list option")

definition startsWith_dot :: "string \<Rightarrow> bool" where
  \<comment> \<open>\<^verbatim>\<open>entry.name.startsWith('.')\<close>\<close>
  "startsWith_dot s = (case s of [] \<Rightarrow> False | c # cs \<Rightarrow> c = CHR ''.'')"

definition compare_files :: "(string \<Rightarrow> string \<Rightarrow> int) \<Rightarrow> ProjectFile \<Rightarrow> ProjectFile \<Rightarrow> int" where
  \<comment> \<open>the comparator given to \<^verbatim>\<open>files.sort\<close>; \<open>localeCompare\<close> is the runtime's\<close>
  "compare_files localeCompare a b =
     (if pf_type a \<noteq> pf_type b then (if pf_type a = TDirectory then - 1 else 1)
      else localeCompare (pf_name a) (pf_name b))"

fun insort_by :: "('a \<Rightarrow> 'a \<Rightarrow> int) \<Rightarrow> 'a \<Rightarrow> 'a list \<Rightarrow> 'a list" where
  "insort_by cmp x [] = [x]"
| "insort_by cmp x (y # ys) = (if cmp x y \<le> 0 then x # y # ys else y # insort_by cmp x ys)"

definition sort_by :: "('a \<Rightarrow> 'a \<Rightarrow> int) \<Rightarrow> 'a list \<Rightarrow> 'a list" where
  \<comment> \<open>\<^verbatim>\<open>Array.prototype.sort\<close>: a stable sort\<close>
  "sort_by cmp xs = foldr (insort_by cmp) xs []"

definition subPath_dir :: "filepath \<Rightarrow> string option \<Rightarrow> filepath" where
  \<comment> \<open>\<^verbatim>\<open>subPath ? join(filesRoot, subPath) : filesRoot\<close>\<close>
  "subPath_dir filesRoot subPath =
     (case subPath of None \<Rightarrow> filesRoot
      | Some sp \<Rightarrow> if sp = [] then filesRoot else join filesRoot sp)"

fun listFiles_node ::
    "(string \<Rightarrow> string \<Rightarrow> int) \<Rightarrow> filepath \<Rightarrow> filepath \<Rightarrow> node \<Rightarrow> ProjectFile list"
  and listFiles_entries ::
    "(string \<Rightarrow> string \<Rightarrow> int) \<Rightarrow> filepath \<Rightarrow> filepath \<Rightarrow> (string \<times> node) list
       \<Rightarrow> ProjectFile list" where
  "listFiles_node lc filesRoot dirPath (Dir es) =
     sort_by (compare_files lc) (listFiles_entries lc filesRoot dirPath es)"
| "listFiles_node lc filesRoot dirPath (File c) = []"
| "listFiles_node lc filesRoot dirPath Other = []"
| "listFiles_entries lc filesRoot dirPath [] = []"
| "listFiles_entries lc filesRoot dirPath ((nm, n) # es) =
     (if startsWith_dot nm then listFiles_entries lc filesRoot dirPath es
      else
        let fullPath = join dirPath nm;
            relativePath = relative filesRoot fullPath
        in (case n of
              Dir ds \<Rightarrow>
                ProjectFile nm relativePath TDirectory None
                  (Some (listFiles_node lc filesRoot
                           (subPath_dir filesRoot (Some relativePath)) (Dir ds)))
                # listFiles_entries lc filesRoot dirPath es
            | File c \<Rightarrow>
                ProjectFile nm relativePath TFile (Some (length c)) None
                # listFiles_entries lc filesRoot dirPath es
            | Other \<Rightarrow> listFiles_entries lc filesRoot dirPath es))"

definition listProjectFiles ::
    "(string \<Rightarrow> string \<Rightarrow> int) \<Rightarrow> node \<Rightarrow> path \<Rightarrow> string \<Rightarrow> string option \<Rightarrow> ProjectFile list" where
  "listProjectFiles lc fs workspaceRootPath projectSlug subPath =
     (let filesRoot = getProjectFilesPath workspaceRootPath projectSlug;
          dirPath = subPath_dir filesRoot subPath
      in case resolve fs dirPath of
           None \<Rightarrow> []
         | Some n \<Rightarrow> listFiles_node lc filesRoot dirPath n)"

text \<open>
  Two views of a tree, used to state what a listing does not depend on: the tree without
  its entries that are neither file nor directory, and the tree without its hidden
  entries, at every depth. \<open>all_files\<close> flattens a listing with the children of every
  directory.
\<close>

fun without_other :: "node \<Rightarrow> node"
  and without_other_entries :: "(string \<times> node) list \<Rightarrow> (string \<times> node) list" where
  "without_other (Dir es) = Dir (without_other_entries es)"
| "without_other (File c) = File c"
| "without_other Other = Other"
| "without_other_entries [] = []"
| "without_other_entries ((nm, Other) # es) = without_other_entries es"
| "without_other_entries ((nm, Dir ds) # es) = (nm, without_other (Dir ds)) # without_other_entries es"
| "without_other_entries ((nm, File c) # es) = (nm, File c) # without_other_entries es"

fun without_hidden :: "node \<Rightarrow> node"
  and without_hidden_entries :: "(string \<times> node) list \<Rightarrow> (string \<times> node) list" where
  "without_hidden (Dir es) = Dir (without_hidden_entries es)"
| "without_hidden (File c) = File c"
| "without_hidden Other = Other"
| "without_hidden_entries [] = []"
| "without_hidden_entries ((nm, Dir ds) # es) =
     (if startsWith_dot nm then without_hidden_entries es
      else (nm, without_hidden (Dir ds)) # without_hidden_entries es)"
| "without_hidden_entries ((nm, n) # es) =
     (if startsWith_dot nm then without_hidden_entries es
      else (nm, n) # without_hidden_entries es)"

fun all_files :: "ProjectFile \<Rightarrow> ProjectFile list"
  and all_files_list :: "ProjectFile list \<Rightarrow> ProjectFile list" where
  "all_files (ProjectFile nm p t sz None) = [ProjectFile nm p t sz None]"
| "all_files (ProjectFile nm p t sz (Some cs)) = ProjectFile nm p t sz (Some cs) # all_files_list cs"
| "all_files_list [] = []"
| "all_files_list (f # fs) = all_files f @ all_files_list fs"

subsection \<open>Unique slugs\<close>

definition digit_char :: "nat \<Rightarrow> char" where
  "digit_char d = char_of (48 + d)"

function show_nat :: "nat \<Rightarrow> string" where
  \<comment> \<open>the decimal digits of a counter, as the template literal prints it\<close>
  "show_nat n = (if n < 10 then [digit_char n] else show_nat (n div 10) @ [digit_char (n mod 10)])"
  by pat_completeness auto
termination
  by (relation "measure id") auto

declare show_nat.simps [simp del]

definition candidate :: "string \<Rightarrow> nat \<Rightarrow> string" where
  \<comment> \<open>the template literal of the slug, a dash and the counter\<close>
  "candidate slug counter = slug @ ''-'' @ show_nat counter"

text \<open>
  The loop of \<open>generateUniqueProjectSlug\<close> ends because the candidates are pairwise
  different entries of one directory, and a directory has finitely many entries. The
  lemmas below give the measure of the termination proof.
\<close>

definition read_nat :: "string \<Rightarrow> nat" where
  "read_nat s = foldl (\<lambda>a c. 10 * a + (of_char c - 48)) 0 s"

lemma read_show_nat: "read_nat (show_nat n) = n"
proof (induction n rule: show_nat.induct)
  case (1 n)
  show ?case
  proof (cases "n < 10")
    case True
    then show ?thesis
      by (subst show_nat.simps) (simp add: read_nat_def digit_char_def)
  next
    case False
    then have "read_nat (show_nat (n div 10)) = n div 10" using 1 by simp
    moreover have "(48 + n mod 10) mod 256 = 48 + n mod 10" by simp
    ultimately show ?thesis using False
      by (subst show_nat.simps) (simp add: read_nat_def digit_char_def)
  qed
qed

lemma show_nat_inj: "show_nat m = show_nat n \<Longrightarrow> m = n"
  by (metis read_show_nat)

lemma show_nat_no_slash: "CHR ''/'' \<notin> set (show_nat n)"
proof (induction n rule: show_nat.induct)
  case (1 n)
  have d: "\<And>k. k < 10 \<Longrightarrow> digit_char k \<noteq> CHR ''/''"
    by (simp add: digit_char_def char_of_eq_iff take_bit_eq_mod)
  show ?case
  proof (cases "n < 10")
    case True
    then show ?thesis using d [of n] by (subst show_nat.simps) simp
  next
    case False
    then show ?thesis using 1 d [of "n mod 10"] by (subst show_nat.simps) simp
  qed
qed

lemma split_slash_not_Nil: "split_slash s \<noteq> []"
  by (induction s) (auto split: list.splits)

lemma split_slash_append:
  "CHR ''/'' \<notin> set t \<Longrightarrow>
   split_slash (s @ t) = butlast (split_slash s) @ [last (split_slash s) @ t]"
proof (induction s)
  case Nil
  then show ?case by (induction t) (auto split: list.splits)
next
  case (Cons c s)
  then show ?case using split_slash_not_Nil [of s] split_slash_not_Nil [of "s @ t"]
    by (auto split: list.splits)
qed

lemma dash_segment: "CHR ''-'' \<in> set x \<Longrightarrow> x \<noteq> [] \<and> x \<noteq> ''.'' \<and> x \<noteq> ''..''"
  by auto

lemma show_nat_last: "show_nat n \<noteq> [] \<and> last (show_nat n) \<noteq> CHR ''/''"
proof -
  have d: "digit_char (n mod 10) \<noteq> CHR ''/''"
    by (simp add: digit_char_def char_of_eq_iff take_bit_eq_mod)
  show ?thesis
  proof (cases "n < 10")
    case True
    then show ?thesis using d by (subst (1 2) show_nat.simps) simp
  next
    case False
    then show ?thesis using d by (subst (1 2) show_nat.simps) simp
  qed
qed

lemma candidate_path:
  "\<exists>base lst. \<forall>k. join dir (candidate slug k) = (base @ [lst @ ''-'' @ show_nat k], False)"
proof -
  let ?i = "butlast (split_slash slug)" and ?l = "last (split_slash slug)"
  have sp: "split_slash (candidate slug k) = ?i @ [?l @ ''-'' @ show_nat k]" for k
  proof -
    have "CHR ''/'' \<notin> set (''-'' @ show_nat k)" using show_nat_no_slash by simp
    from split_slash_append [OF this, of slug] show ?thesis by (simp add: candidate_def)
  qed
  have ne: "?l @ ''-'' @ show_nat k \<noteq> [] \<and> ?l @ ''-'' @ show_nat k \<noteq> ''.''
      \<and> ?l @ ''-'' @ show_nat k \<noteq> ''..''" for k
  proof -
    have "CHR ''-'' \<in> set (?l @ ''-'' @ show_nat k)" by simp
    then show ?thesis by (rule dash_segment)
  qed
  have "join dir (candidate slug k) = (normalize (fst dir @ ?i) @ [?l @ ''-'' @ show_nat k], False)"
    for k
  proof -
    have "candidate slug k \<noteq> [] \<and> last (candidate slug k) \<noteq> CHR ''/''"
      using show_nat_last [of k] by (simp add: candidate_def)
    then show ?thesis
      using ne [of k] by (simp add: join_def sp normalize_def norm_step_def)
  qed
  then show ?thesis by blast
qed

lemma lookup_snoc:
  "lookup fs (p @ [x]) =
     (case lookup fs p of Some (Dir es) \<Rightarrow> map_of es x | _ \<Rightarrow> None)"
proof (induction p arbitrary: fs)
  case Nil
  then show ?case by (cases fs) (auto split: option.splits)
next
  case (Cons s p)
  then show ?case by (cases fs) (auto split: option.splits)
qed

lemma finite_candidates:
  "finite {k. existsSync fs (join dir (candidate slug k))}"
proof -
  obtain base lst where
    j: "\<And>k. join dir (candidate slug k) = (base @ [lst @ ''-'' @ show_nat k], False)"
    using candidate_path by blast
  show ?thesis
  proof (cases "lookup fs base")
    case None
    then show ?thesis by (simp add: existsSync_def resolve_def j lookup_snoc)
  next
    case (Some n)
    show ?thesis
    proof (cases n)
      case (Dir es)
      have inj: "inj (\<lambda>k. lst @ ''-'' @ show_nat k)"
        by (rule injI) (simp add: show_nat_inj)
      have "{k. existsSync fs (join dir (candidate slug k))}
            \<subseteq> (\<lambda>k. lst @ ''-'' @ show_nat k) -` (fst ` set es)"
      proof
        fix k
        assume "k \<in> {k. existsSync fs (join dir (candidate slug k))}"
        then have "map_of es (lst @ ''-'' @ show_nat k) \<noteq> None"
          using Some Dir
          by (auto simp: existsSync_def resolve_def j lookup_snoc split: option.splits)
        then have "lst @ ''-'' @ show_nat k \<in> dom (map_of es)" by blast
        then show "k \<in> (\<lambda>k. lst @ ''-'' @ show_nat k) -` (fst ` set es)"
          by (simp only: dom_map_of_conv_image_fst vimage_eq)
      qed
      moreover have "finite ((\<lambda>k. lst @ ''-'' @ show_nat k) -` (fst ` set es))"
        using inj by (simp add: finite_vimageI)
      ultimately show ?thesis by (rule finite_subset)
    qed (use Some in \<open>simp_all add: existsSync_def resolve_def j lookup_snoc\<close>)
  qed
qed

function probe :: "node \<Rightarrow> filepath \<Rightarrow> string \<Rightarrow> nat \<Rightarrow> nat" where
  \<comment> \<open>\<^verbatim>\<open>while (existsSync(join(projectsDir, `${slug}-${counter}`))) counter++\<close>\<close>
  "probe fs projectsDir slug counter =
     (if existsSync fs (join projectsDir (candidate slug counter))
      then probe fs projectsDir slug (counter + 1)
      else counter)"
  by pat_completeness auto
termination
proof (relation "measure (\<lambda>(fs, dir, slug, counter).
          card {k. counter \<le> k \<and> existsSync fs (join dir (candidate slug k))})")
  show "wf (measure (\<lambda>(fs, dir, slug, counter).
          card {k. counter \<le> k \<and> existsSync fs (join dir (candidate slug k))}))"
    by simp
next
  fix fs :: node and projectsDir :: filepath and slug :: string and counter :: nat
  assume ex: "existsSync fs (join projectsDir (candidate slug counter))"
  let ?A = "\<lambda>c. {k. c \<le> k \<and> existsSync fs (join projectsDir (candidate slug k))}"
  have fin: "finite (?A counter)"
    using finite_candidates [of fs projectsDir slug] by simp
  have "counter \<in> ?A counter" and "counter \<notin> ?A (counter + 1)" and "?A (counter + 1) \<subseteq> ?A counter"
    using ex by auto
  then have "?A (counter + 1) \<subset> ?A counter" by blast
  then have "card (?A (counter + 1)) < card (?A counter)"
    using fin by (rule psubset_card_mono [rotated])
  then show "((fs, projectsDir, slug, counter + 1), (fs, projectsDir, slug, counter))
      \<in> measure (\<lambda>(fs, dir, slug, counter).
          card {k. counter \<le> k \<and> existsSync fs (join dir (candidate slug k))})"
    by simp
qed

declare probe.simps [simp del]

definition generateUniqueProjectSlug :: "node \<Rightarrow> string \<Rightarrow> filepath \<Rightarrow> string" where
  "generateUniqueProjectSlug fs name projectsDir =
     (let slug = generateSlug name;
          candidate0 = slug
      in if \<not> existsSync fs (join projectsDir candidate0) then candidate0
         else let counter = probe fs projectsDir slug 2
              in candidate slug counter)"

subsection \<open>JSON text\<close>

text \<open>
  The text that \<^verbatim>\<open>JSON.stringify(value, null, 2)\<close> prints and \<^verbatim>\<open>JSON.parse\<close>
  reads, on the syntax of the values a configuration file holds: objects, arrays, strings,
  integers, booleans and null. Numbers in the text are integers (a timestamp is a count of
  milliseconds); a number with a fraction or an exponent is outside the model and the
  parser gives no result for it, as it does for a \<^verbatim>\<open>\u\<close> escape above U+00FF.
\<close>

datatype json =
  JNull | JBool bool | JNum int | JStr string | JArr "json list" | JObj "(string \<times> json) list"

definition dquote :: char where "dquote = CHR 0x22"
definition bslash :: char where "bslash = CHR 0x5C"
definition newline :: char where "newline = CHR 0x0A"

definition hex_char :: "nat \<Rightarrow> char" where
  "hex_char d = (if d < 10 then char_of (48 + d) else char_of (87 + d))"

definition quote_char :: "char \<Rightarrow> string" where
  "quote_char c =
     (if c = dquote then [bslash, dquote]
      else if c = bslash then [bslash, bslash]
      else if code c = 8 then [bslash, CHR ''b'']
      else if code c = 9 then [bslash, CHR ''t'']
      else if code c = 10 then [bslash, CHR ''n'']
      else if code c = 12 then [bslash, CHR ''f'']
      else if code c = 13 then [bslash, CHR ''r'']
      else if code c < 32 then
        [bslash, CHR ''u'', CHR ''0'', CHR ''0'', hex_char (code c div 16), hex_char (code c mod 16)]
      else [c])"

fun quote_body :: "string \<Rightarrow> string" where
  "quote_body [] = []"
| "quote_body (c # cs) = quote_char c @ quote_body cs"

definition quote :: "string \<Rightarrow> string" where
  "quote s = dquote # quote_body s @ [dquote]"

definition show_int :: "int \<Rightarrow> string" where
  "show_int i = (if i < 0 then CHR ''-'' # show_nat (nat (- i)) else show_nat (nat i))"

definition spaces :: "nat \<Rightarrow> string" where
  "spaces n = replicate n CHR '' ''"

fun show_json :: "nat \<Rightarrow> json \<Rightarrow> string"
  and show_elems :: "nat \<Rightarrow> json list \<Rightarrow> string"
  and show_members :: "nat \<Rightarrow> (string \<times> json) list \<Rightarrow> string" where
  "show_json ind JNull = ''null''"
| "show_json ind (JBool b) = (if b then ''true'' else ''false'')"
| "show_json ind (JNum i) = show_int i"
| "show_json ind (JStr s) = quote s"
| "show_json ind (JArr []) = ''[]''"
| "show_json ind (JArr (v # vs)) =
     CHR ''['' # newline # show_elems (ind + 2) (v # vs) @ newline # spaces ind @ '']''"
| "show_json ind (JObj []) = ''{}''"
| "show_json ind (JObj (m # ms)) =
     CHR ''{'' # newline # show_members (ind + 2) (m # ms) @ newline # spaces ind @ ''}''"
| "show_elems ind [] = []"
| "show_elems ind [v] = spaces ind @ show_json ind v"
| "show_elems ind (v # w # vs) =
     spaces ind @ show_json ind v @ CHR '','' # newline # show_elems ind (w # vs)"
| "show_members ind [] = []"
| "show_members ind [(k, v)] = spaces ind @ quote k @ '': '' @ show_json ind v"
| "show_members ind ((k, v) # m # ms) =
     spaces ind @ quote k @ '': '' @ show_json ind v @ CHR '','' # newline # show_members ind (m # ms)"

definition json_print :: "json \<Rightarrow> string" where
  \<comment> \<open>the text of \<^verbatim>\<open>JSON.stringify(value, null, 2)\<close>\<close>
  "json_print v = show_json 0 v"

datatype token =
  TLBrace | TRBrace | TLBrack | TRBrack | TComma | TColon
  | TStr string | TNum int | TTrue | TFalse | TNull

definition hex_val :: "char \<Rightarrow> nat option" where
  "hex_val c =
     (if 48 \<le> code c \<and> code c \<le> 57 then Some (code c - 48)
      else if 97 \<le> code c \<and> code c \<le> 102 then Some (code c - 87)
      else if 65 \<le> code c \<and> code c \<le> 70 then Some (code c - 55)
      else None)"

definition hex4 :: "char \<Rightarrow> char \<Rightarrow> char \<Rightarrow> char \<Rightarrow> char option" where
  "hex4 a b c d =
     (case (hex_val a, hex_val b, hex_val c, hex_val d) of
        (Some x, Some y, Some z, Some w) \<Rightarrow>
          (if x = 0 \<and> y = 0 then Some (char_of (16 * z + w)) else None)
      | _ \<Rightarrow> None)"

definition unescape :: "char \<Rightarrow> char option" where
  "unescape e =
     (if e = dquote then Some dquote
      else if e = bslash then Some bslash
      else if e = CHR ''/'' then Some CHR ''/''
      else if e = CHR ''b'' then Some (char_of (8::nat))
      else if e = CHR ''f'' then Some (char_of (12::nat))
      else if e = CHR ''n'' then Some (char_of (10::nat))
      else if e = CHR ''r'' then Some (char_of (13::nat))
      else if e = CHR ''t'' then Some (char_of (9::nat))
      else None)"

definition cons_fst :: "'a \<Rightarrow> ('a list \<times> 'b) option \<Rightarrow> ('a list \<times> 'b) option" where
  "cons_fst x r = (case r of None \<Rightarrow> None | Some (xs, rest) \<Rightarrow> Some (x # xs, rest))"

fun scan_string :: "string \<Rightarrow> (string \<times> string) option" where
  \<comment> \<open>the text after an opening quote: the string it denotes and what follows the
      closing quote\<close>
  "scan_string [] = None"
| "scan_string (c # cs) =
     (if c = dquote then Some ([], cs)
      else if c = bslash then
        (case cs of
           [] \<Rightarrow> None
         | e # r \<Rightarrow>
             if e = CHR ''u'' then
               (case r of
                  h1 # h2 # h3 # h4 # r' \<Rightarrow>
                    (case hex4 h1 h2 h3 h4 of
                       None \<Rightarrow> None
                     | Some ch \<Rightarrow> cons_fst ch (scan_string r'))
                | _ \<Rightarrow> None)
             else
               (case unescape e of
                  None \<Rightarrow> None
                | Some ch \<Rightarrow> cons_fst ch (scan_string r)))
      else if code c < 32 then None
      else cons_fst c (scan_string cs))"

definition is_digit :: "char \<Rightarrow> bool" where
  "is_digit c = (48 \<le> code c \<and> code c \<le> 57)"

definition scan_number :: "string \<Rightarrow> (int \<times> string) option" where
  \<comment> \<open>an optional minus sign and digits without a leading zero\<close>
  "scan_number s =
     (let neg = (s \<noteq> [] \<and> hd s = CHR ''-'');
          body = (if neg then tl s else s);
          ds = takeWhile is_digit body;
          rest = dropWhile is_digit body
      in if ds = [] then None
         else if 1 < length ds \<and> hd ds = CHR ''0'' then None
         else if rest \<noteq> [] \<and> (hd rest = CHR ''.'' \<or> hd rest = CHR ''e'' \<or> hd rest = CHR ''E'') then None
         else Some (if neg then - int (read_nat ds) else int (read_nat ds), rest))"

definition is_ws :: "char \<Rightarrow> bool" where
  "is_ws c = (code c = 32 \<or> code c = 9 \<or> code c = 10 \<or> code c = 13)"

definition cons_opt :: "'a \<Rightarrow> 'a list option \<Rightarrow> 'a list option" where
  "cons_opt x r = (case r of None \<Rightarrow> None | Some xs \<Rightarrow> Some (x # xs))"

lemma scan_string_length: "scan_string s = Some (str, rest) \<Longrightarrow> length rest < length s"
proof (induction "length s" arbitrary: s str rest rule: less_induct)
  case less
  have IH: "\<And>s' str'. scan_string s' = Some (str', rest) \<Longrightarrow> length s' < length s
      \<Longrightarrow> length rest < length s"
    using less.hyps by (meson less_trans)
  from less.prems show ?case
  proof (cases s)
    case Nil
    with less.prems show ?thesis by simp
  next
    case (Cons c cs)
    consider (q) "c = dquote" | (b) "c \<noteq> dquote" "c = bslash" | (o) "c \<noteq> dquote" "c \<noteq> bslash"
      by blast
    then show ?thesis
    proof cases
      case q
      with less.prems Cons show ?thesis by simp
    next
      case o
      with less.prems Cons obtain str' where "scan_string cs = Some (str', rest)"
        by (auto simp: cons_fst_def split: if_splits option.splits)
      from IH [OF this] Cons show ?thesis by simp
    next
      case b
      with less.prems Cons obtain e r where cs: "cs = e # r" by (cases cs) auto
      show ?thesis
      proof (cases "e = CHR ''u''")
        case True
        with less.prems Cons b cs obtain h1 h2 h3 h4 r' str' where
          "r = h1 # h2 # h3 # h4 # r'" "scan_string r' = Some (str', rest)"
          by (auto simp: cons_fst_def split: list.splits option.splits)
        with IH [of r' str'] Cons cs show ?thesis by simp
      next
        case False
        with less.prems Cons b cs obtain str' where "scan_string r = Some (str', rest)"
          by (auto simp: cons_fst_def split: option.splits)
        with IH [of r str'] Cons cs show ?thesis by simp
      qed
    qed
  qed
qed

lemma scan_number_length: "scan_number s = Some (i, rest) \<Longrightarrow> length rest < length s"
proof -
  assume a: "scan_number s = Some (i, rest)"
  let ?body = "if s \<noteq> [] \<and> hd s = CHR ''-'' then tl s else s"
  from a have r: "rest = dropWhile is_digit ?body" and ne: "takeWhile is_digit ?body \<noteq> []"
    by (auto simp: scan_number_def Let_def split: if_splits)
  have "length (takeWhile is_digit ?body) + length (dropWhile is_digit ?body) = length ?body"
    by (metis length_append takeWhile_dropWhile_id)
  moreover have "0 < length (takeWhile is_digit ?body)" using ne by simp
  moreover have "length ?body \<le> length s" by simp
  ultimately show ?thesis unfolding r by linarith
qed

function lex :: "string \<Rightarrow> token list option" where
  "lex [] = Some []"
| "lex (c # cs) =
     (if is_ws c then lex cs
      else if c = CHR ''{'' then cons_opt TLBrace (lex cs)
      else if c = CHR ''}'' then cons_opt TRBrace (lex cs)
      else if c = CHR ''['' then cons_opt TLBrack (lex cs)
      else if c = CHR '']'' then cons_opt TRBrack (lex cs)
      else if c = CHR '','' then cons_opt TComma (lex cs)
      else if c = CHR '':'' then cons_opt TColon (lex cs)
      else if c = dquote then
        (case scan_string cs of
           None \<Rightarrow> None
         | Some (s, rest) \<Rightarrow> cons_opt (TStr s) (lex rest))
      else if c = CHR ''-'' \<or> is_digit c then
        (case scan_number (c # cs) of
           None \<Rightarrow> None
         | Some (i, rest) \<Rightarrow> cons_opt (TNum i) (lex rest))
      else if take 4 (c # cs) = ''true'' then cons_opt TTrue (lex (drop 3 cs))
      else if take 5 (c # cs) = ''false'' then cons_opt TFalse (lex (drop 4 cs))
      else if take 4 (c # cs) = ''null'' then cons_opt TNull (lex (drop 3 cs))
      else None)"
  by pat_completeness auto
termination
proof (relation "measure length", goal_cases)
  case (9 c cs x2 x y)
  then show ?case using scan_string_length [of cs x y] by simp
next
  case (10 c cs x2 x y)
  then show ?case using scan_number_length [of "c # cs" x y] by simp
qed simp_all

declare lex.simps [simp del]

fun parse_value :: "nat \<Rightarrow> token list \<Rightarrow> (json \<times> token list) option"
  and parse_elems :: "nat \<Rightarrow> token list \<Rightarrow> (json list \<times> token list) option"
  and parse_members :: "nat \<Rightarrow> token list \<Rightarrow> ((string \<times> json) list \<times> token list) option" where
  "parse_value 0 ts = None"
| "parse_value (Suc n) [] = None"
| "parse_value (Suc n) (TNull # ts) = Some (JNull, ts)"
| "parse_value (Suc n) (TTrue # ts) = Some (JBool True, ts)"
| "parse_value (Suc n) (TFalse # ts) = Some (JBool False, ts)"
| "parse_value (Suc n) (TNum i # ts) = Some (JNum i, ts)"
| "parse_value (Suc n) (TStr s # ts) = Some (JStr s, ts)"
| "parse_value (Suc n) (TLBrack # TRBrack # ts) = Some (JArr [], ts)"
| "parse_value (Suc n) (TLBrack # ts) =
     (case parse_elems n ts of None \<Rightarrow> None | Some (vs, ts') \<Rightarrow> Some (JArr vs, ts'))"
| "parse_value (Suc n) (TLBrace # TRBrace # ts) = Some (JObj [], ts)"
| "parse_value (Suc n) (TLBrace # ts) =
     (case parse_members n ts of None \<Rightarrow> None | Some (ms, ts') \<Rightarrow> Some (JObj ms, ts'))"
| "parse_value (Suc n) (t # ts) = None"
| "parse_elems 0 ts = None"
| "parse_elems (Suc n) ts =
     (case parse_value n ts of
        None \<Rightarrow> None
      | Some (v, []) \<Rightarrow> None
      | Some (v, t # ts') \<Rightarrow>
          if t = TComma then cons_fst v (parse_elems n ts')
          else if t = TRBrack then Some ([v], ts')
          else None)"
| "parse_members 0 ts = None"
| "parse_members (Suc n) (TStr k # TColon # ts) =
     (case parse_value n ts of
        None \<Rightarrow> None
      | Some (v, []) \<Rightarrow> None
      | Some (v, t # ts') \<Rightarrow>
          if t = TComma then cons_fst (k, v) (parse_members n ts')
          else if t = TRBrace then Some ([(k, v)], ts')
          else None)"
| "parse_members (Suc n) ts = None"

definition json_read :: "string \<Rightarrow> json option" where
  \<comment> \<open>a syntax error is \<open>None\<close>; every call of the parser below consumes a token, so
      the number of tokens bounds its depth\<close>
  "json_read s =
     (case lex s of
        None \<Rightarrow> None
      | Some ts \<Rightarrow>
          (case parse_value (length ts) ts of
             Some (v, []) \<Rightarrow> Some v
           | _ \<Rightarrow> None))"

text \<open>The tokens of a value, to relate the printer and the parser.\<close>

fun toks :: "json \<Rightarrow> token list"
  and toks_elems :: "json list \<Rightarrow> token list"
  and toks_members :: "(string \<times> json) list \<Rightarrow> token list" where
  "toks JNull = [TNull]"
| "toks (JBool b) = [if b then TTrue else TFalse]"
| "toks (JNum i) = [TNum i]"
| "toks (JStr s) = [TStr s]"
| "toks (JArr vs) = TLBrack # toks_elems vs @ [TRBrack]"
| "toks (JObj ms) = TLBrace # toks_members ms @ [TRBrace]"
| "toks_elems [] = []"
| "toks_elems [v] = toks v"
| "toks_elems (v # w # vs) = toks v @ TComma # toks_elems (w # vs)"
| "toks_members [] = []"
| "toks_members [(k, v)] = TStr k # TColon # toks v"
| "toks_members ((k, v) # m # ms) = TStr k # TColon # toks v @ TComma # toks_members (m # ms)"

definition app_opt :: "'a list \<Rightarrow> 'a list option \<Rightarrow> 'a list option" where
  "app_opt xs r = (case r of None \<Rightarrow> None | Some ys \<Rightarrow> Some (xs @ ys))"

definition delimited :: "string \<Rightarrow> bool" where
  \<comment> \<open>what follows a value in printed text: nothing, a comma or a line break\<close>
  "delimited rest = (rest = [] \<or> hd rest = CHR '','' \<or> hd rest = newline)"

subsection \<open>JavaScript values\<close>

text \<open>
  The values of the objects that the store builds, spreads, serialises and reads back. A
  TypeScript type is erased at run time, so a configuration read from disk and the
  \<^verbatim>\<open>updates\<close> given to \<open>updateProject\<close> are objects with any keys and values. A
  \<^verbatim>\<open>number\<close> is finite or one of \<^verbatim>\<open>NaN\<close>, \<^verbatim>\<open>Infinity\<close>, \<^verbatim>\<open>-Infinity\<close>; the
  finite numbers of the model are the integers. An object lists its own properties in
  the order of their creation; that JavaScript puts integer-like keys first changes the
  order of the keys in the text of a file and no value, and is not modelled. Functions,
  accessors and prototypes are not values of the model.
\<close>

datatype number = Finite int | NaN | PosInfinity | NegInfinity

datatype jsvalue =
  VUndefined | VNull | VBool bool | VNum number | VStr string
  | VArr "jsvalue list" | VObj "(string \<times> jsvalue) list"

type_synonym object = "(string \<times> jsvalue) list"

fun truthy :: "jsvalue \<Rightarrow> bool" where
  \<comment> \<open>a value in a condition\<close>
  "truthy VUndefined = False"
| "truthy VNull = False"
| "truthy (VBool b) = b"
| "truthy (VNum (Finite i)) = (i \<noteq> 0)"
| "truthy (VNum NaN) = False"
| "truthy (VNum PosInfinity) = True"
| "truthy (VNum NegInfinity) = True"
| "truthy (VStr s) = (s \<noteq> [])"
| "truthy (VArr vs) = True"
| "truthy (VObj ms) = True"

fun own_props :: "jsvalue \<Rightarrow> object" where
  \<comment> \<open>the own enumerable properties, which a spread copies: those of an object, the
      elements of an array and the characters of a string under their indices\<close>
  "own_props (VObj ms) = ms"
| "own_props (VArr vs) = zip (map show_nat [0..<length vs]) vs"
| "own_props (VStr s) = zip (map show_nat [0..<length s]) (map (\<lambda>c. VStr [c]) s)"
| "own_props v = []"

definition obj_get :: "object \<Rightarrow> string \<Rightarrow> jsvalue" where
  "obj_get ms k = (case map_of ms k of None \<Rightarrow> VUndefined | Some v \<Rightarrow> v)"

definition property :: "jsvalue \<Rightarrow> string \<Rightarrow> jsvalue" where
  \<comment> \<open>the property access \<^verbatim>\<open>v.k\<close>, for the keys the store reads (none of them is
      \<^verbatim>\<open>length\<close> or inherited)\<close>
  "property v k = obj_get (own_props v) k"

definition assign :: "string \<Rightarrow> jsvalue \<Rightarrow> object \<Rightarrow> object" where
  \<comment> \<open>a property of an object literal: it replaces the value of a key that is there
      and comes last otherwise\<close>
  "assign k v obj = AList.update k v obj"

definition define_all :: "object \<Rightarrow> (string \<times> jsvalue) list \<Rightarrow> object" where
  "define_all obj ps = foldl (\<lambda>acc (k, v). assign k v acc) obj ps"

definition spread :: "object \<Rightarrow> jsvalue \<Rightarrow> object" where
  \<comment> \<open>\<^verbatim>\<open>{ ...obj, ...v }\<close>\<close>
  "spread obj v = define_all obj (own_props v)"

text \<open>
  \<^verbatim>\<open>JSON.stringify\<close> leaves out a property whose value is \<^verbatim>\<open>undefined\<close>, writes
  \<^verbatim>\<open>null\<close> for \<^verbatim>\<open>undefined\<close> in an array and for a number that is not finite.
  \<^verbatim>\<open>JSON.parse\<close> builds its objects by defining the members in the order of the text,
  so the last value of a repeated key stays.
\<close>

fun to_json :: "jsvalue \<Rightarrow> json"
  and to_json_list :: "jsvalue list \<Rightarrow> json list"
  and to_json_members :: "(string \<times> jsvalue) list \<Rightarrow> (string \<times> json) list" where
  "to_json VUndefined = JNull"
| "to_json VNull = JNull"
| "to_json (VBool b) = JBool b"
| "to_json (VNum (Finite i)) = JNum i"
| "to_json (VNum NaN) = JNull"
| "to_json (VNum PosInfinity) = JNull"
| "to_json (VNum NegInfinity) = JNull"
| "to_json (VStr s) = JStr s"
| "to_json (VArr vs) = JArr (to_json_list vs)"
| "to_json (VObj ms) = JObj (to_json_members ms)"
| "to_json_list [] = []"
| "to_json_list (v # vs) = to_json v # to_json_list vs"
| "to_json_members [] = []"
| "to_json_members ((k, VUndefined) # ms) = to_json_members ms"
| "to_json_members ((k, v) # ms) = (k, to_json v) # to_json_members ms"

fun of_json :: "json \<Rightarrow> jsvalue"
  and of_json_list :: "json list \<Rightarrow> jsvalue list"
  and of_json_members :: "(string \<times> json) list \<Rightarrow> (string \<times> jsvalue) list" where
  "of_json JNull = VNull"
| "of_json (JBool b) = VBool b"
| "of_json (JNum i) = VNum (Finite i)"
| "of_json (JStr s) = VStr s"
| "of_json (JArr vs) = VArr (of_json_list vs)"
| "of_json (JObj ms) = VObj (define_all [] (of_json_members ms))"
| "of_json_list [] = []"
| "of_json_list (v # vs) = of_json v # of_json_list vs"
| "of_json_members [] = []"
| "of_json_members ((k, v) # ms) = (k, of_json v) # of_json_members ms"

definition JSON_stringify :: "jsvalue \<Rightarrow> string" where
  \<comment> \<open>\<^verbatim>\<open>JSON.stringify(value, null, 2)\<close> of a value that is not \<^verbatim>\<open>undefined\<close>\<close>
  "JSON_stringify v = json_print (to_json v)"

definition JSON_parse :: "string \<Rightarrow> jsvalue option" where
  \<comment> \<open>a syntax error is \<open>None\<close>\<close>
  "JSON_parse s = map_option of_json (json_read s)"

text \<open>
  A plain value is one that \<^verbatim>\<open>JSON.parse\<close> can return: no \<^verbatim>\<open>undefined\<close>, finite
  numbers, and no key twice in an object.
\<close>

fun plain :: "jsvalue \<Rightarrow> bool"
  and plain_list :: "jsvalue list \<Rightarrow> bool"
  and plain_members :: "(string \<times> jsvalue) list \<Rightarrow> bool" where
  "plain VUndefined = False"
| "plain VNull = True"
| "plain (VBool b) = True"
| "plain (VNum n) = (case n of Finite i \<Rightarrow> True | _ \<Rightarrow> False)"
| "plain (VStr s) = True"
| "plain (VArr vs) = plain_list vs"
| "plain (VObj ms) = (distinct (map fst ms) \<and> plain_members ms)"
| "plain_list [] = True"
| "plain_list (v # vs) = (plain v \<and> plain_list vs)"
| "plain_members [] = True"
| "plain_members ((k, v) # ms) = (plain v \<and> plain_members ms)"

text \<open>
  What a property of an object is after the object went through \<^verbatim>\<open>JSON.stringify\<close>
  and \<^verbatim>\<open>JSON.parse\<close>.
\<close>

definition reread :: "jsvalue \<Rightarrow> jsvalue" where
  "reread v = (if v = VUndefined then VUndefined else of_json (to_json v))"

subsection \<open>Project configuration\<close>

text \<open>
  The fields of the interfaces of \<^verbatim>\<open>types.ts\<close>, with a prefix per record; an
  optional field is an \<open>option\<close>, \<open>None\<close> for \<^verbatim>\<open>undefined\<close>. The typed records are
  what \<open>createProject\<close> takes and builds. \<^verbatim>\<open>JSON.parse(...) as ProjectConfig\<close> checks
  nothing, so \<open>loadProjectConfig\<close> returns the value that the file holds, whatever its
  shape, and the functions that go on from it read its properties. The \<^verbatim>\<open>updates\<close> of
  \<open>updateProject\<close> are an object: a list of keys with their values, where a key can be
  any name and its value can be \<^verbatim>\<open>undefined\<close>.
\<close>

record ProjectConfig =
  pc_id :: string
  pc_name :: string
  pc_slug :: string
  pc_description :: "string option"
  pc_guidelines :: "string option"
  pc_createdAt :: number
  pc_updatedAt :: number
  pc_enabledSourceSlugs :: "string list option"

record CreateProjectInput =
  in_name :: string
  in_description :: "string option"
  in_guidelines :: "string option"
  in_enabledSourceSlugs :: "string list option"

record ProjectSummary =
  ps_id :: jsvalue
  ps_slug :: jsvalue
  ps_name :: jsvalue
  ps_description :: jsvalue
  ps_sessionCount :: nat
  ps_fileCount :: nat
  ps_createdAt :: jsvalue
  ps_updatedAt :: jsvalue

definition optional :: "('a \<Rightarrow> jsvalue) \<Rightarrow> 'a option \<Rightarrow> jsvalue" where
  "optional f x = (case x of None \<Rightarrow> VUndefined | Some v \<Rightarrow> f v)"

definition object_of_config :: "ProjectConfig \<Rightarrow> object" where
  \<comment> \<open>a configuration as an object, its properties in the order of the literal in
      \<open>createProject\<close>\<close>
  "object_of_config c =
     [(''id'', VStr (pc_id c)), (''name'', VStr (pc_name c)), (''slug'', VStr (pc_slug c)),
      (''description'', optional VStr (pc_description c)),
      (''guidelines'', optional VStr (pc_guidelines c)),
      (''createdAt'', VNum (pc_createdAt c)), (''updatedAt'', VNum (pc_updatedAt c)),
      (''enabledSourceSlugs'', optional (\<lambda>xs. VArr (map VStr xs)) (pc_enabledSourceSlugs c))]"

subsection \<open>Config operations\<close>

text \<open>
  An operation takes the disk and returns its result with the disk it leaves. A function
  that can throw returns \<open>Inl\<close> of the error; \<^verbatim>\<open>Date.now()\<close> and
  \<^verbatim>\<open>randomUUID()\<close> are arguments. \<^verbatim>\<open>null\<close> is \<open>VNull\<close> where the result is a
  value and \<open>None\<close> where it is a typed record.
\<close>

definition loadProjectConfig :: "node \<Rightarrow> path \<Rightarrow> string \<Rightarrow> jsvalue" where
  "loadProjectConfig fs workspaceRootPath projectSlug =
     (let configPath = join (getProjectPath workspaceRootPath projectSlug) ''config.json''
      in if \<not> existsSync fs configPath then VNull
         else (case readFileSync configPath fs of
                 Inl e \<Rightarrow> VNull
               | Inr body \<Rightarrow>
                   (case JSON_parse body of
                      None \<Rightarrow> VNull
                    | Some v \<Rightarrow> v)))"

definition storageConfig :: "jsvalue \<Rightarrow> int \<Rightarrow> jsvalue" where
  \<comment> \<open>\<^verbatim>\<open>{ ...config, updatedAt: Date.now() }\<close>\<close>
  "storageConfig config now = VObj (assign ''updatedAt'' (VNum (Finite now)) (spread [] config))"

definition saveProjectConfig ::
    "path \<Rightarrow> string \<Rightarrow> jsvalue \<Rightarrow> int \<Rightarrow> node \<Rightarrow> (errno + unit) \<times> node" where
  "saveProjectConfig workspaceRootPath projectSlug config now fs =
     (let projectPath = getProjectPath workspaceRootPath projectSlug
      in case (if \<not> existsSync fs projectPath then mkdirSync projectPath fs else Inr fs) of
           Inl e \<Rightarrow> (Inl e, fs)
         | Inr fs1 \<Rightarrow>
             (case writeFileSync (join projectPath ''config.json'')
                     (JSON_stringify (storageConfig config now)) fs1 of
                Inl e \<Rightarrow> (Inl e, fs1)
              | Inr fs2 \<Rightarrow> (Inr (), fs2)))"

definition loadProject :: "node \<Rightarrow> path \<Rightarrow> string \<Rightarrow> jsvalue" where
  "loadProject fs workspaceRootPath projectSlug = loadProjectConfig fs workspaceRootPath projectSlug"

definition getProjectSummary :: "node \<Rightarrow> path \<Rightarrow> string \<Rightarrow> nat \<Rightarrow> ProjectSummary option" where
  "getProjectSummary fs workspaceRootPath projectSlug sessionCount =
     (let config = loadProjectConfig fs workspaceRootPath projectSlug
      in if \<not> truthy config then None
         else
           Some \<lparr> ps_id = property config ''id'', ps_slug = property config ''slug'',
                  ps_name = property config ''name'',
                  ps_description = property config ''description'',
                  ps_sessionCount = sessionCount,
                  ps_fileCount = countFiles fs (getProjectFilesPath workspaceRootPath projectSlug),
                  ps_createdAt = property config ''createdAt'',
                  ps_updatedAt = property config ''updatedAt'' \<rparr>)"

subsection \<open>Create, update, delete\<close>

definition truthy_string :: "string option \<Rightarrow> bool" where
  \<comment> \<open>an optional string in a condition: neither \<^verbatim>\<open>undefined\<close> nor empty\<close>
  "truthy_string s = (case s of None \<Rightarrow> False | Some t \<Rightarrow> t \<noteq> [])"

definition createProject ::
    "path \<Rightarrow> CreateProjectInput \<Rightarrow> int \<Rightarrow> string \<Rightarrow> node \<Rightarrow> (errno + ProjectConfig) \<times> node" where
  "createProject workspaceRootPath input now uuid fs =
     (let projectsDir = getWorkspaceProjectsPath workspaceRootPath
      in case (if \<not> existsSync fs projectsDir then mkdirSync projectsDir fs else Inr fs) of
           Inl e \<Rightarrow> (Inl e, fs)
         | Inr fs1 \<Rightarrow>
             (let slug = generateUniqueProjectSlug fs1 (in_name input) projectsDir;
                  config = \<lparr> pc_id = ''proj_'' @ take 8 uuid,
                             pc_name = in_name input,
                             pc_slug = slug,
                             pc_description = in_description input,
                             pc_guidelines = in_guidelines input,
                             pc_createdAt = Finite now,
                             pc_updatedAt = Finite now,
                             pc_enabledSourceSlugs = in_enabledSourceSlugs input \<rparr>;
                  projectPath = join projectsDir slug
              in case mkdirSync projectPath fs1 of
                   Inl e \<Rightarrow> (Inl e, fs1)
                 | Inr fs2 \<Rightarrow>
                     (case mkdirSync (join projectPath ''files'') fs2 of
                        Inl e \<Rightarrow> (Inl e, fs2)
                      | Inr fs3 \<Rightarrow>
                          (case writeFileSync (join projectPath ''config.json'')
                                  (JSON_stringify (VObj (object_of_config config))) fs3 of
                             Inl e \<Rightarrow> (Inl e, fs3)
                           | Inr fs4 \<Rightarrow>
                               if truthy_string (in_guidelines input) then
                                 (case writeFileSync (join projectPath ''guidelines.md'')
                                         (the (in_guidelines input)) fs4 of
                                    Inl e \<Rightarrow> (Inl e, fs4)
                                  | Inr fs5 \<Rightarrow> (Inr config, fs5))
                               else (Inr config, fs4)))))"

definition merge_updates :: "jsvalue \<Rightarrow> object \<Rightarrow> int \<Rightarrow> object" where
  \<comment> \<open>the object literal of \<open>updateProject\<close>: the own properties of the loaded
      configuration, then every own property of \<^verbatim>\<open>updates\<close>, then \<^verbatim>\<open>updatedAt\<close>\<close>
  "merge_updates config updates now =
     assign ''updatedAt'' (VNum (Finite now)) (spread (spread [] config) (VObj updates))"

definition write_data :: "filepath \<Rightarrow> jsvalue \<Rightarrow> node \<Rightarrow> errno + node" where
  \<comment> \<open>\<^verbatim>\<open>writeFileSync\<close> with data of any type: a \<^verbatim>\<open>TypeError\<close> unless it is a string\<close>
  "write_data p v fs = (case v of VStr s \<Rightarrow> writeFileSync p s fs | _ \<Rightarrow> Inl ERR_INVALID_ARG_TYPE)"

definition updateProject ::
    "path \<Rightarrow> string \<Rightarrow> object \<Rightarrow> int \<Rightarrow> int \<Rightarrow> node \<Rightarrow> (errno + jsvalue) \<times> node" where
  \<comment> \<open>\<open>now\<close> is the time read for the returned object, \<open>now_save\<close> the time read
      inside \<open>saveProjectConfig\<close>\<close>
  "updateProject workspaceRootPath projectSlug updates now now_save fs =
     (let config = loadProjectConfig fs workspaceRootPath projectSlug
      in if \<not> truthy config then (Inr VNull, fs)
         else
           (let updated = VObj (merge_updates config updates now)
            in case saveProjectConfig workspaceRootPath projectSlug updated now_save fs of
                 (Inl e, fs1) \<Rightarrow> (Inl e, fs1)
               | (Inr u, fs1) \<Rightarrow>
                   if obj_get updates ''guidelines'' \<noteq> VUndefined then
                     (let guidelinesPath =
                            join (getProjectPath workspaceRootPath projectSlug) ''guidelines.md''
                      in if truthy (obj_get updates ''guidelines'') then
                           (case write_data guidelinesPath (obj_get updates ''guidelines'') fs1 of
                              Inl e \<Rightarrow> (Inl e, fs1)
                            | Inr fs2 \<Rightarrow> (Inr updated, fs2))
                         else if existsSync fs1 guidelinesPath then
                           (case unlinkSync guidelinesPath fs1 of
                              Inl e \<Rightarrow> (Inl e, fs1)
                            | Inr fs2 \<Rightarrow> (Inr updated, fs2))
                         else (Inr updated, fs1))
                   else (Inr updated, fs1)))"

definition deleteProject :: "path \<Rightarrow> string \<Rightarrow> node \<Rightarrow> bool \<times> node" where
  "deleteProject workspaceRootPath projectSlug fs =
     (let projectPath = getProjectPath workspaceRootPath projectSlug
      in if \<not> existsSync fs projectPath then (False, fs)
         else (case rmSync projectPath fs of
                 Inl e \<Rightarrow> (False, fs)
               | Inr fs1 \<Rightarrow> (True, fs1)))"

subsection \<open>File operations\<close>

definition readProjectFile :: "node \<Rightarrow> path \<Rightarrow> string \<Rightarrow> string \<Rightarrow> string option" where
  "readProjectFile fs workspaceRootPath projectSlug filePath =
     (let fullPath = join (getProjectFilesPath workspaceRootPath projectSlug) filePath
      in if \<not> existsSync fs fullPath then None
         else (case readFileSync fullPath fs of Inl e \<Rightarrow> None | Inr body \<Rightarrow> Some body))"

definition writeProjectFile ::
    "path \<Rightarrow> string \<Rightarrow> string \<Rightarrow> string \<Rightarrow> node \<Rightarrow> (errno + unit) \<times> node" where
  "writeProjectFile workspaceRootPath projectSlug filePath content fs =
     (let fullPath = join (getProjectFilesPath workspaceRootPath projectSlug) filePath;
          dir = join fullPath ''..''
      in case (if \<not> existsSync fs dir then mkdirSync dir fs else Inr fs) of
           Inl e \<Rightarrow> (Inl e, fs)
         | Inr fs1 \<Rightarrow>
             (case writeFileSync fullPath content fs1 of
                Inl e \<Rightarrow> (Inl e, fs1)
              | Inr fs2 \<Rightarrow> (Inr (), fs2)))"

definition createProjectFile ::
    "path \<Rightarrow> string \<Rightarrow> string \<Rightarrow> string \<Rightarrow> node \<Rightarrow> (errno + bool) \<times> node" where
  "createProjectFile workspaceRootPath projectSlug filePath content fs =
     (let fullPath = join (getProjectFilesPath workspaceRootPath projectSlug) filePath
      in if existsSync fs fullPath then (Inr False, fs)
         else
           (let dir = join fullPath ''..''
            in case (if \<not> existsSync fs dir then mkdirSync dir fs else Inr fs) of
                 Inl e \<Rightarrow> (Inl e, fs)
               | Inr fs1 \<Rightarrow>
                   (case writeFileSync fullPath content fs1 of
                      Inl e \<Rightarrow> (Inl e, fs1)
                    | Inr fs2 \<Rightarrow> (Inr True, fs2))))"

definition deleteProjectFile :: "path \<Rightarrow> string \<Rightarrow> string \<Rightarrow> node \<Rightarrow> bool \<times> node" where
  "deleteProjectFile workspaceRootPath projectSlug filePath fs =
     (let fullPath = join (getProjectFilesPath workspaceRootPath projectSlug) filePath
      in if \<not> existsSync fs fullPath then (False, fs)
         else (case (if is_dir (resolve fs fullPath) then rmSync fullPath fs
                     else unlinkSync fullPath fs) of
                 Inl e \<Rightarrow> (False, fs)
               | Inr fs1 \<Rightarrow> (True, fs1)))"

definition renameProjectFile :: "path \<Rightarrow> string \<Rightarrow> string \<Rightarrow> string \<Rightarrow> node \<Rightarrow> bool \<times> node" where
  "renameProjectFile workspaceRootPath projectSlug oldPath newPath fs =
     (let filesRoot = getProjectFilesPath workspaceRootPath projectSlug;
          fullOldPath = join filesRoot oldPath;
          fullNewPath = join filesRoot newPath
      in if \<not> existsSync fs fullOldPath then (False, fs)
         else if existsSync fs fullNewPath then (False, fs)
         else
           (let newDir = join fullNewPath ''..''
            in case (if \<not> existsSync fs newDir then mkdirSync newDir fs else Inr fs) of
                 Inl e \<Rightarrow> (False, fs)
               | Inr fs1 \<Rightarrow>
                   (case renameSync fullOldPath fullNewPath fs1 of
                      Inl e \<Rightarrow> (False, fs1)
                    | Inr fs2 \<Rightarrow> (True, fs2))))"

definition is_hex :: "char \<Rightarrow> bool" where
  "is_hex c = ((48 \<le> code c \<and> code c \<le> 57) \<or> (97 \<le> code c \<and> code c \<le> 102))"

definition is_uuid :: "string \<Rightarrow> bool" where
  \<comment> \<open>the text \<^verbatim>\<open>randomUUID()\<close> returns: 8-4-4-4-12 hexadecimal digits in lower case\<close>
  "is_uuid u =
     (length u = 36
      \<and> (\<forall>i<36. if i = 8 \<or> i = 13 \<or> i = 18 \<or> i = 23 then u ! i = CHR ''-'' else is_hex (u ! i)))"

section \<open>Slug generation\<close>

lemma replace_runs_charset: "c \<in> set (replace_runs s) \<Longrightarrow> is_az09 c \<or> c = CHR ''-''"
proof (induction s rule: replace_runs.induct)
  case 1
  then show ?case by simp
next
  case (2 d ds)
  then show ?case by (auto split: if_splits)
qed

lemma dropWhile_head: "dropWhile P xs = [] \<or> \<not> P (hd (dropWhile P xs))"
  using hd_dropWhile by blast

lemma replace_runs_hd: "s \<noteq> [] \<Longrightarrow> is_az09 (hd s) \<Longrightarrow> hd (replace_runs s) = hd s"
  by (cases s) auto

lemma replace_runs_head:
  assumes "replace_runs s = c # r"
  shows "is_az09 c \<or> (c = CHR ''-'' \<and> (r = [] \<or> is_az09 (hd r)))"
proof (cases s)
  case Nil
  with assms show ?thesis by simp
next
  case (Cons d ds)
  show ?thesis
  proof (cases "is_az09 d")
    case True
    with assms Cons show ?thesis by simp
  next
    case False
    let ?t = "dropWhile (\<lambda>x. \<not> is_az09 x) ds"
    from False assms Cons have c: "c = CHR ''-''" and r: "r = replace_runs ?t" by auto
    have "?t = [] \<or> is_az09 (hd ?t)" using dropWhile_head [of "\<lambda>x. \<not> is_az09 x" ds] by auto
    then have "r = [] \<or> is_az09 (hd r)"
    proof
      assume "?t = []"
      then have "replace_runs ?t = []" by (simp only: replace_runs.simps)
      with r show ?thesis by blast
    next
      assume h: "is_az09 (hd ?t)"
      show ?thesis
      proof (cases "?t = []")
        case True
        then have "replace_runs ?t = []" by (simp only: replace_runs.simps)
        with r show ?thesis by blast
      next
        case False
        from replace_runs_hd [OF False h] h r show ?thesis by metis
      qed
    qed
    with c show ?thesis by simp
  qed
qed

lemma dash_not_az09: "\<not> is_az09 CHR ''-''"
  by (simp add: is_az09_def code_def)

lemma strip_dashes_subset: "set (strip_dashes s) \<subseteq> set s"
  by (auto simp: strip_dashes_def Let_def split: list.splits if_splits dest: in_set_butlastD)

lemma strip_dashes_head:
  assumes "strip_dashes (replace_runs s) = c # r"
  shows "c \<noteq> CHR ''-''"
proof (cases "replace_runs s")
  case Nil
  with assms show ?thesis by (simp add: strip_dashes_def)
next
  case (Cons d ds)
  from replace_runs_head [OF Cons]
  have h: "is_az09 d \<or> (d = CHR ''-'' \<and> (ds = [] \<or> is_az09 (hd ds)))" .
  show ?thesis
  proof (cases "d = CHR ''-''")
    case True
    with h dash_not_az09 have "ds = [] \<or> is_az09 (hd ds)" by auto
    with assms Cons True dash_not_az09 show ?thesis
      by (cases ds) (auto simp: strip_dashes_def Let_def split: if_splits)
  next
    case False
    with assms Cons show ?thesis
      by (cases ds) (auto simp: strip_dashes_def Let_def split: if_splits)
  qed
qed

lemma toLowerCase_char_not_az09: "\<not> is_alnum c \<Longrightarrow> \<not> is_az09 (toLowerCase_char c)"
  by (auto simp: is_alnum_def is_az09_def toLowerCase_char_def code_def)

lemma replace_runs_no_az09:
  "\<forall>c\<in>set s. \<not> is_az09 c \<Longrightarrow> replace_runs s = [] \<or> replace_runs s = ''-''"
proof (cases s)
  case Nil
  then show ?thesis by simp
next
  case (Cons d ds)
  assume a: "\<forall>c\<in>set s. \<not> is_az09 c"
  with Cons have "dropWhile (\<lambda>x. \<not> is_az09 x) ds = []" by auto
  then have "replace_runs (dropWhile (\<lambda>x. \<not> is_az09 x) ds) = []"
    by (simp only: replace_runs.simps)
  moreover from a Cons have "\<not> is_az09 d" by simp
  ultimately show ?thesis using Cons by (simp del: dropWhile_eq_Nil_conv)
qed

text \<open>
  What \<open>generateSlug\<close> does guarantee for every name: the result is made of
  \<^verbatim>\<open>[a-z0-9-]\<close> (so it has no capital letter), it has at most 50 characters, it is
  not empty and it does not start with a dash.
\<close>

lemma generateSlug_shape:
  "(\<forall>c\<in>set (generateSlug name). is_az09 c \<or> c = CHR ''-'')
   \<and> length (generateSlug name) \<le> 50
   \<and> generateSlug name \<noteq> []
   \<and> hd (generateSlug name) \<noteq> CHR ''-''"
proof -
  let ?s = "strip_dashes (replace_runs (toLowerCase name))"
  have cs: "\<forall>c\<in>set ?s. is_az09 c \<or> c = CHR ''-''"
    using strip_dashes_subset replace_runs_charset by blast
  have hd: "?s \<noteq> [] \<Longrightarrow> hd ?s \<noteq> CHR ''-''"
    using strip_dashes_head [of "toLowerCase name"] by (cases ?s) auto
  show ?thesis
  proof (cases "take 50 ?s = []")
    case True
    then show ?thesis
      by (simp add: generateSlug_def substring0_def is_az09_def code_def)
  next
    case False
    then have ne: "?s \<noteq> []" by auto
    have "\<forall>c\<in>set (take 50 ?s). is_az09 c \<or> c = CHR ''-''"
      using cs by (meson in_set_takeD)
    moreover have "hd (take 50 ?s) = hd ?s" using ne by (cases ?s) auto
    ultimately show ?thesis using False hd [OF ne]
      by (simp add: generateSlug_def substring0_def)
  qed
qed

text \<open>A name without an ASCII letter or digit gives the fallback slug.\<close>

lemma generateSlug_fallback:
  assumes "\<forall>c\<in>set name. \<not> is_alnum c"
  shows "generateSlug name = ''project''"
proof -
  have "\<forall>c\<in>set (toLowerCase name). \<not> is_az09 c"
    using assms by (auto simp: toLowerCase_def toLowerCase_char_not_az09)
  then have "replace_runs (toLowerCase name) = [] \<or> replace_runs (toLowerCase name) = ''-''"
    by (rule replace_runs_no_az09)
  then have "strip_dashes (replace_runs (toLowerCase name)) = []"
    by (auto simp: strip_dashes_def)
  then show ?thesis by (simp add: generateSlug_def substring0_def)
qed

text \<open>
  Claim C3: for every name, \<open>generateSlug\<close> is lowercase, matches \<^verbatim>\<open>[a-z0-9-]*\<close>,
  has no leading or trailing dash, has at most 50 characters, and is \<^verbatim>\<open>project\<close>
  when the name has no alphanumeric character. The source strips the dashes before it
  truncates, so the cut at 50 characters can end on the dash of a run: for the name of
  49 letters \<^verbatim>\<open>a\<close>, a space and \<^verbatim>\<open>b\<close>, the slug is the 49 letters followed by a
  dash. The other parts of the claim hold (\<open>generateSlug_shape\<close>,
  \<open>generateSlug_fallback\<close>).
\<close>

theorem generateSlug_trailing_dash:
  "generateSlug (replicate 49 CHR ''a'' @ '' b'') = replicate 49 CHR ''a'' @ ''-''
   \<and> last (generateSlug (replicate 49 CHR ''a'' @ '' b'')) = CHR ''-''"
  by code_simp

section \<open>Listing and counting\<close>

lemma countFiles_without_other:
  "countFiles_node (without_other n) = countFiles_node n"
  "countFiles_entries (without_other_entries es) = countFiles_entries es"
  by (induction n and es rule: without_other_without_other_entries.induct) simp_all

lemma listFiles_without_other:
  "listFiles_node lc r d (without_other n) = listFiles_node lc r d n"
  "listFiles_entries lc r d (without_other_entries es) = listFiles_entries lc r d es"
proof (induction n and es arbitrary: d and d rule: without_other_without_other_entries.induct)
qed (simp_all add: Let_def)

lemma set_insort_by: "set (insort_by cmp x xs) = insert x (set xs)"
  by (induction xs) auto

lemma set_sort_by: "set (sort_by cmp xs) = set xs"
  unfolding sort_by_def by (induction xs) (simp_all add: set_insort_by)

lemma set_all_files_list: "set (all_files_list fs) = (\<Union>f\<in>set fs. set (all_files f))"
  by (induction fs) auto

text \<open>
  The listing skips hidden entries at every depth: it is the listing of the tree without
  them, and no entry of the result, children included, has a name that starts with a dot.
\<close>

lemma listFiles_without_hidden:
  "listFiles_node lc r d (without_hidden n) = listFiles_node lc r d n"
  "listFiles_entries lc r d (without_hidden_entries es) = listFiles_entries lc r d es"
proof (induction n and es arbitrary: d and d rule: without_hidden_without_hidden_entries.induct)
qed (simp_all add: Let_def)

lemma listFiles_no_hidden:
  "\<forall>f\<in>set (all_files_list (listFiles_node lc r d n)). \<not> startsWith_dot (pf_name f)"
  "\<forall>f\<in>set (all_files_list (listFiles_entries lc r d es)). \<not> startsWith_dot (pf_name f)"
proof (induction lc r d n and lc r d es rule: listFiles_node_listFiles_entries.induct)
  case (1 lc filesRoot dirPath es)
  then show ?case by (simp add: set_all_files_list set_sort_by)
next
  case (5 lc filesRoot dirPath nm n es)
  then show ?case by (cases n; cases "join dirPath nm") (auto simp: Let_def)
qed simp_all

lemma listProjectFiles_no_hidden:
  "\<forall>f\<in>set (all_files_list (listProjectFiles lc fs root slug sub)). \<not> startsWith_dot (pf_name f)"
  using listFiles_no_hidden(1) by (simp add: listProjectFiles_def Let_def split: option.splits)

text \<open>
  Claim C10: an entry that is neither a regular file nor a directory is left out of the
  result of \<open>listProjectFiles\<close> and adds nothing to the recursive file count, whatever
  its name. Stated on two disks: when the directory read on the second disk is the one of
  the first disk without such entries, at every depth, the listing and the count are the
  same on both. \<open>resolve\<close> gives what a path names on a disk.
\<close>

theorem other_entries_omitted:
  assumes "resolve fs (subPath_dir (getProjectFilesPath root slug) sub) = Some n"
    and "resolve fs' (subPath_dir (getProjectFilesPath root slug) sub) = Some (without_other n)"
    and "resolve fs p = Some m"
    and "resolve fs' p = Some (without_other m)"
  shows "listProjectFiles lc fs' root slug sub = listProjectFiles lc fs root slug sub
         \<and> countFiles fs' p = countFiles fs p"
  using assms
  by (simp add: listProjectFiles_def countFiles_def Let_def listFiles_without_other(1)
      countFiles_without_other(1))

theorem other_entries_omitted_witness:
  "listProjectFiles (\<lambda>a b. 0)
     (Dir [(''w'', Dir [(''projects'', Dir [(''p'', Dir [(''files'',
        Dir [(''a.txt'', File ''hello'')])])])])])
     [''w''] ''p'' None
   = listProjectFiles (\<lambda>a b. 0)
     (Dir [(''w'', Dir [(''projects'', Dir [(''p'', Dir [(''files'',
        Dir [(''sock'', Other), (''a.txt'', File ''hello'')])])])])])
     [''w''] ''p'' None
   \<and> countFiles
     (Dir [(''w'', Dir [(''projects'', Dir [(''p'', Dir [(''files'',
        Dir [(''a.txt'', File ''hello'')])])])])])
     ([''w'', ''projects'', ''p'', ''files''], False)
   = countFiles
     (Dir [(''w'', Dir [(''projects'', Dir [(''p'', Dir [(''files'',
        Dir [(''sock'', Other), (''a.txt'', File ''hello'')])])])])])
     ([''w'', ''projects'', ''p'', ''files''], False)"
proof -
  let ?fs = "Dir [(''w'', Dir [(''projects'', Dir [(''p'', Dir [(''files'',
        Dir [(''sock'', Other), (''a.txt'', File ''hello'')])])])])]"
  let ?fs' = "Dir [(''w'', Dir [(''projects'', Dir [(''p'', Dir [(''files'',
        Dir [(''a.txt'', File ''hello'')])])])])]"
  let ?n = "Dir [(''sock'', Other), (''a.txt'', File ''hello'')]"
  let ?p = "([''w'', ''projects'', ''p'', ''files''], False)"
  have p: "subPath_dir (getProjectFilesPath [''w''] ''p'') None = ?p"
    by code_simp
  have a: "resolve ?fs ?p = Some ?n" by (simp add: resolve_def)
  have b: "resolve ?fs' ?p = Some (without_other ?n)" by (simp add: resolve_def)
  show ?thesis
    using other_entries_omitted [of ?fs "[''w'']" "''p''" None ?n ?fs' ?p ?n "\<lambda>a b. 0"] a b p
    by simp
qed

section \<open>Unique slugs\<close>

lemma probe_free: "\<not> existsSync fs (join dir (candidate slug (probe fs dir slug c)))"
proof (induction fs dir slug c rule: probe.induct)
  case (1 fs projectsDir slug counter)
  then show ?case by (subst probe.simps) simp
qed

lemma probe_from:
  "c \<le> probe fs dir slug c
   \<and> (\<forall>k. c \<le> k \<and> k < probe fs dir slug c \<longrightarrow> existsSync fs (join dir (candidate slug k)))"
proof (induction fs dir slug c rule: probe.induct)
  case (1 fs projectsDir slug counter)
  show ?case
  proof (cases "existsSync fs (join projectsDir (candidate slug counter))")
    case True
    with 1 have ih: "counter + 1 \<le> probe fs projectsDir slug (counter + 1)
       \<and> (\<forall>k. counter + 1 \<le> k \<and> k < probe fs projectsDir slug (counter + 1)
             \<longrightarrow> existsSync fs (join projectsDir (candidate slug k)))" by simp
    have eq: "probe fs projectsDir slug counter = probe fs projectsDir slug (counter + 1)"
      using True by (subst probe.simps) simp
    show ?thesis
    proof (intro conjI allI impI)
      show "counter \<le> probe fs projectsDir slug counter" using ih eq by simp
    next
      fix k
      assume k: "counter \<le> k \<and> k < probe fs projectsDir slug counter"
      show "existsSync fs (join projectsDir (candidate slug k))"
      proof (cases "k = counter")
        case True
        then show ?thesis using \<open>existsSync fs (join projectsDir (candidate slug counter))\<close> by simp
      next
        case False
        with k eq have "counter + 1 \<le> k \<and> k < probe fs projectsDir slug (counter + 1)" by simp
        with ih show ?thesis by blast
      qed
    qed
  next
    case False
    then have "probe fs projectsDir slug counter = counter" by (subst probe.simps) simp
    then show ?thesis by auto
  qed
qed

lemma show_nat_digit: "n < 10 \<Longrightarrow> show_nat n = [digit_char n]"
  by (subst show_nat.simps) simp

text \<open>
  Claim C4: for every name and every state of the projects directory,
  \<open>generateUniqueProjectSlug\<close> returns a name under which nothing exists there; and
  when \<^verbatim>\<open>x\<close> and \<^verbatim>\<open>x-2\<close> exist, \<^verbatim>\<open>x-3\<close> does not and the base slug of the name
  is \<^verbatim>\<open>x\<close>, it returns \<^verbatim>\<open>x-3\<close>. The function is total: its loop is \<open>probe\<close>,
  defined with its termination proof.
\<close>

theorem generateUniqueProjectSlug_fresh:
  "\<not> existsSync fs (join projectsDir (generateUniqueProjectSlug fs name projectsDir))
   \<and> (generateSlug name = ''x''
        \<and> existsSync fs (join projectsDir ''x'')
        \<and> existsSync fs (join projectsDir ''x-2'')
        \<and> \<not> existsSync fs (join projectsDir ''x-3'')
      \<longrightarrow> generateUniqueProjectSlug fs name projectsDir = ''x-3'')"
proof (intro conjI impI)
  show "\<not> existsSync fs (join projectsDir (generateUniqueProjectSlug fs name projectsDir))"
    using probe_free [of fs projectsDir "generateSlug name" 2]
    by (simp add: generateUniqueProjectSlug_def Let_def)
next
  assume a: "generateSlug name = ''x''
        \<and> existsSync fs (join projectsDir ''x'')
        \<and> existsSync fs (join projectsDir ''x-2'')
        \<and> \<not> existsSync fs (join projectsDir ''x-3'')"
  have c2: "candidate ''x'' 2 = ''x-2''" and c3: "candidate ''x'' 3 = ''x-3''"
    by code_simp+
  have "probe fs projectsDir ''x'' 2 = probe fs projectsDir ''x'' 3"
    using a c2 by (subst probe.simps) simp
  also have "\<dots> = 3"
    using a c3 by (subst probe.simps) simp
  finally show "generateUniqueProjectSlug fs name projectsDir = ''x-3''"
    using a c3 by (simp add: generateUniqueProjectSlug_def Let_def)
qed

theorem generateUniqueProjectSlug_fresh_witness:
  "generateUniqueProjectSlug (Dir [(''x'', Dir []), (''x-2'', Dir [])]) ''X'' ([], False) = ''x-3''
   \<and> \<not> existsSync (Dir [(''x'', Dir []), (''x-2'', Dir [])]) ([''x-3''], False)"
proof -
  let ?fs = "Dir [(''x'', Dir []), (''x-2'', Dir [])]"
  have g: "generateSlug ''X'' = ''x''" by code_simp
  have j: "join ([], False) ''x'' = ([''x''], False)" "join ([], False) ''x-2'' = ([''x-2''], False)"
    "join ([], False) ''x-3'' = ([''x-3''], False)"
    by code_simp+
  have e: "existsSync ?fs ([''x''], False)" "existsSync ?fs ([''x-2''], False)"
    "\<not> existsSync ?fs ([''x-3''], False)"
    by (simp_all add: existsSync_def resolve_def)
  show ?thesis
    using generateUniqueProjectSlug_fresh [of ?fs "([], False)" "''X''"] g j e by simp
qed

section \<open>Printing and parsing JSON\<close>


lemma lex_ws: "is_ws c \<Longrightarrow> lex (c # cs) = lex cs"
  by (subst lex.simps) simp

lemma lex_spaces: "lex (spaces n @ s) = lex s"
  by (induction n) (simp_all add: spaces_def lex_ws is_ws_def code_def)

lemma lex_newline: "lex (newline # s) = lex s"
  by (simp add: lex_ws is_ws_def code_def newline_def)

lemma lex_punct:
  "lex (CHR ''{'' # cs) = cons_opt TLBrace (lex cs)"
  "lex (CHR ''}'' # cs) = cons_opt TRBrace (lex cs)"
  "lex (CHR ''['' # cs) = cons_opt TLBrack (lex cs)"
  "lex (CHR '']'' # cs) = cons_opt TRBrack (lex cs)"
  "lex (CHR '','' # cs) = cons_opt TComma (lex cs)"
  "lex (CHR '':'' # cs) = cons_opt TColon (lex cs)"
  by (subst lex.simps, simp add: is_ws_def code_def)+

lemma lex_keywords:
  "lex (''null'' @ cs) = cons_opt TNull (lex cs)"
  "lex (''true'' @ cs) = cons_opt TTrue (lex cs)"
  "lex (''false'' @ cs) = cons_opt TFalse (lex cs)"
  by (simp, subst lex.simps, simp add: is_ws_def code_def dquote_def is_digit_def)+

lemma hex_val_hex_char: "d < 16 \<Longrightarrow> hex_val (hex_char d) = Some d"
  by (auto simp: hex_val_def hex_char_def code_def)

lemma code_eq: "code c = n \<Longrightarrow> n < 256 \<Longrightarrow> c = char_of n"
  by (auto simp: code_def)

lemma scan_quote_char: "scan_string (quote_char c @ r) = cons_fst c (scan_string r)"
proof -
  consider (q) "c = dquote" | (b) "c = bslash" | (c8) "code c = 8" | (c9) "code c = 9"
    | (c10) "code c = 10" | (c12) "code c = 12" | (c13) "code c = 13"
    | (ctl) "code c < 32" "code c \<noteq> 8" "code c \<noteq> 9" "code c \<noteq> 10" "code c \<noteq> 12" "code c \<noteq> 13"
    | (reg) "c \<noteq> dquote" "c \<noteq> bslash" "\<not> code c < 32"
    by fastforce
  then show ?thesis
  proof cases
    case q
    then show ?thesis by (simp add: quote_char_def unescape_def dquote_def bslash_def)
  next
    case b
    then show ?thesis by (simp add: quote_char_def unescape_def dquote_def bslash_def)
  next
    case c8
    then have "c = char_of (8::nat)" by (simp add: code_eq)
    then show ?thesis by (simp add: quote_char_def unescape_def dquote_def bslash_def code_def)
  next
    case c9
    then have "c = char_of (9::nat)" by (simp add: code_eq)
    then show ?thesis by (simp add: quote_char_def unescape_def dquote_def bslash_def code_def)
  next
    case c10
    then have "c = char_of (10::nat)" by (simp add: code_eq)
    then show ?thesis by (simp add: quote_char_def unescape_def dquote_def bslash_def code_def)
  next
    case c12
    then have "c = char_of (12::nat)" by (simp add: code_eq)
    then show ?thesis by (simp add: quote_char_def unescape_def dquote_def bslash_def code_def)
  next
    case c13
    then have "c = char_of (13::nat)" by (simp add: code_eq)
    then show ?thesis by (simp add: quote_char_def unescape_def dquote_def bslash_def code_def)
  next
    case ctl
    have nq: "c \<noteq> dquote" "c \<noteq> bslash" using ctl(1) by (auto simp: dquote_def bslash_def code_def)
    have h: "hex_val (hex_char (code c div 16)) = Some (code c div 16)"
      "hex_val (hex_char (code c mod 16)) = Some (code c mod 16)"
      using ctl(1) by (simp_all add: hex_val_hex_char)
    have z: "hex_val CHR ''0'' = Some 0" by (simp add: hex_val_def code_def)
    have "char_of (16 * (code c div 16) + code c mod 16) = c" by (simp add: code_def)
    then have "hex4 CHR ''0'' CHR ''0'' (hex_char (code c div 16)) (hex_char (code c mod 16)) = Some c"
      by (simp add: hex4_def h z)
    then show ?thesis using ctl nq
      by (simp add: quote_char_def bslash_def dquote_def)
  next
    case reg
    then show ?thesis by (simp add: quote_char_def)
  qed
qed

lemma scan_quote_body: "scan_string (quote_body s @ dquote # rest) = Some (s, rest)"
  by (induction s) (simp_all add: scan_quote_char cons_fst_def)

lemma lex_dquote:
  "lex (dquote # cs) =
     (case scan_string cs of None \<Rightarrow> None | Some (s, rest) \<Rightarrow> cons_opt (TStr s) (lex rest))"
  by (subst lex.simps) (simp add: is_ws_def code_def dquote_def)

lemma lex_string: "lex (quote s @ rest) = cons_opt (TStr s) (lex rest)"
  by (simp add: quote_def lex_dquote scan_quote_body)

lemma show_nat_digits: "\<forall>c\<in>set (show_nat n). is_digit c"
proof (induction n rule: show_nat.induct)
  case (1 n)
  have d: "\<And>k. k < 10 \<Longrightarrow> is_digit (digit_char k)"
    by (simp add: digit_char_def is_digit_def code_def)
  show ?case
  proof (cases "n < 10")
    case True
    then show ?thesis using d [of n] by (subst show_nat.simps) simp
  next
    case False
    then show ?thesis using 1 d [of "n mod 10"] by (subst show_nat.simps) simp
  qed
qed

lemma show_nat_not_Nil: "show_nat n \<noteq> []"
  by (subst show_nat.simps) simp

lemma show_nat_leading: "1 < length (show_nat n) \<Longrightarrow> hd (show_nat n) \<noteq> CHR ''0''"
proof (induction n rule: show_nat.induct)
  case (1 n)
  show ?case
  proof (cases "n < 10")
    case True
    with 1(2) show ?thesis by (subst (asm) show_nat.simps) simp
  next
    case False
    show ?thesis
    proof (cases "n div 10 < 10")
      case True
      with False have "show_nat n = [digit_char (n div 10), digit_char (n mod 10)]"
        by (subst show_nat.simps) (simp add: show_nat_digit)
      moreover have "n div 10 \<noteq> 0" using False by simp
      ultimately show ?thesis using True
        by (simp add: digit_char_def char_of_eq_iff take_bit_eq_mod)
    next
      case nd: False
      then have "1 < length (show_nat (n div 10))"
        by (subst show_nat.simps) (simp add: Suc_lessI show_nat_not_Nil)
      with 1(1) False have "hd (show_nat (n div 10)) \<noteq> CHR ''0''" by simp
      then show ?thesis using False show_nat_not_Nil [of "n div 10"]
        by (subst show_nat.simps) simp
    qed
  qed
qed

lemma delimited_not_digit: "delimited rest \<Longrightarrow> rest = [] \<or> \<not> is_digit (hd rest)"
  by (auto simp: delimited_def is_digit_def code_def newline_def)

lemma scan_digits:
  assumes "delimited rest"
  shows "takeWhile is_digit (show_nat n @ rest) = show_nat n"
    and "dropWhile is_digit (show_nat n @ rest) = rest"
proof -
  have r: "takeWhile is_digit rest = []" "dropWhile is_digit rest = rest"
    using delimited_not_digit [OF assms] by (cases rest; simp)+
  show "takeWhile is_digit (show_nat n @ rest) = show_nat n"
    using show_nat_digits [of n] r by (simp add: takeWhile_append2)
  show "dropWhile is_digit (show_nat n @ rest) = rest"
    using show_nat_digits [of n] r by (simp add: dropWhile_append2)
qed

lemma scan_number_show_int:
  assumes "delimited rest"
  shows "scan_number (show_int i @ rest) = Some (i, rest)"
proof -
  have nd: "rest \<noteq> [] \<Longrightarrow> hd rest \<noteq> CHR ''.'' \<and> hd rest \<noteq> CHR ''e'' \<and> hd rest \<noteq> CHR ''E''"
    using assms by (auto simp: delimited_def newline_def)
  have nm: "hd (show_nat n @ rest) \<noteq> CHR ''-''" for n
    using show_nat_digits [of n] show_nat_not_Nil [of n]
    by (cases "show_nat n") (auto simp: is_digit_def code_def)
  have lz: "\<not> (1 < length (show_nat n) \<and> hd (show_nat n) = CHR ''0'')" for n
    using show_nat_leading [of n] by blast
  show ?thesis
  proof (cases "i < 0")
    case True
    then show ?thesis
      using nd lz [of "nat (- i)"] show_nat_not_Nil [of "nat (- i)"]
      by (auto simp: scan_number_def show_int_def Let_def scan_digits [OF assms] read_show_nat)
  next
    case False
    then show ?thesis
      using nd lz [of "nat i"] show_nat_not_Nil [of "nat i"] nm [of "nat i"]
      by (auto simp: scan_number_def show_int_def Let_def scan_digits [OF assms] read_show_nat)
  qed
qed

lemma show_int_head: "hd (show_int i @ rest) = CHR ''-'' \<or> is_digit (hd (show_int i @ rest))"
  using show_nat_digits [of "nat i"] show_nat_not_Nil [of "nat i"]
  by (cases "show_nat (nat i)") (auto simp: show_int_def)

lemma show_int_not_Nil: "show_int i \<noteq> []"
  by (simp add: show_int_def show_nat_not_Nil)

lemma lex_number:
  assumes "delimited rest"
  shows "lex (show_int i @ rest) = cons_opt (TNum i) (lex rest)"
proof -
  obtain c cs where s: "show_int i @ rest = c # cs"
    using show_int_not_Nil [of i] by (cases "show_int i @ rest") auto
  have h: "c = CHR ''-'' \<or> is_digit c" using show_int_head [of i rest] s by simp
  then have "\<not> is_ws c" "c \<noteq> CHR ''{''" "c \<noteq> CHR ''}''" "c \<noteq> CHR ''[''" "c \<noteq> CHR '']''"
    "c \<noteq> CHR '',''" "c \<noteq> CHR '':''" "c \<noteq> dquote"
    by (auto simp: is_ws_def is_digit_def code_def dquote_def)
  then have "lex (c # cs) =
      (case scan_number (c # cs) of None \<Rightarrow> None | Some (i, rest) \<Rightarrow> cons_opt (TNum i) (lex rest))"
    using h by (subst lex.simps) simp
  then show ?thesis
    using scan_number_show_int [OF assms, of i] s by simp
qed



lemma app_opt_simps:
  "cons_opt t (app_opt ts r) = app_opt (t # ts) r"
  "app_opt xs (cons_opt t r) = app_opt (xs @ [t]) r"
  "app_opt xs (app_opt ys r) = app_opt (xs @ ys) r"
  "cons_opt t r = app_opt [t] r"
  by (cases r; simp add: app_opt_def cons_opt_def)+

lemma delimited_simps: "delimited (CHR '','' # r)" "delimited (newline # r)" "delimited []"
  by (simp_all add: delimited_def)

lemma lex_space: "lex (CHR '' '' # s) = lex s"
  by (simp add: lex_ws is_ws_def code_def)

lemma lex_show:
  "delimited rest \<Longrightarrow> lex (show_json ind v @ rest) = app_opt (toks v) (lex rest)"
  "delimited rest \<Longrightarrow> lex (show_elems ind vs @ rest) = app_opt (toks_elems vs) (lex rest)"
  "delimited rest \<Longrightarrow> lex (show_members ind ms @ rest) = app_opt (toks_members ms) (lex rest)"
proof (induction ind v and ind vs and ind ms arbitrary: rest and rest and rest
    rule: show_json_show_elems_show_members.induct)
  case (1 ind)
  then show ?case using lex_keywords(1) [of rest] by (simp add: app_opt_simps(4))
next
  case (2 ind b)
  then show ?case using lex_keywords(2,3) [of rest] by (simp add: app_opt_simps(4))
next
  case (3 ind i)
  then show ?case by (simp add: lex_number app_opt_simps(4))
next
  case (4 ind s)
  then show ?case by (simp add: lex_string app_opt_simps(4))
next
  case (5 ind)
  then show ?case by (simp add: lex_punct app_opt_simps)
next
  case (6 ind v vs)
  have "lex (show_elems (ind + 2) (v # vs) @ (newline # spaces ind @ '']'' @ rest))
        = app_opt (toks_elems (v # vs)) (lex (newline # spaces ind @ '']'' @ rest))"
    by (rule 6(1)) (simp add: delimited_simps)
  then show ?case
    by (simp add: lex_punct lex_newline lex_spaces app_opt_simps(1,2,3))
next
  case (7 ind)
  then show ?case by (simp add: lex_punct app_opt_simps)
next
  case (8 ind m ms)
  have "lex (show_members (ind + 2) (m # ms) @ (newline # spaces ind @ ''}'' @ rest))
        = app_opt (toks_members (m # ms)) (lex (newline # spaces ind @ ''}'' @ rest))"
    by (rule 8(1)) (simp add: delimited_simps)
  then show ?case
    by (simp add: lex_punct lex_newline lex_spaces app_opt_simps(1,2,3))
next
  case (9 ind)
  then show ?case by (cases "lex rest") (simp_all add: app_opt_def)
next
  case (10 ind v)
  then show ?case by (simp add: lex_spaces)
next
  case (11 ind v w vs)
  have a: "lex (show_json ind v @ (CHR '','' # newline # show_elems ind (w # vs) @ rest))
        = app_opt (toks v) (lex (CHR '','' # newline # show_elems ind (w # vs) @ rest))"
    by (rule 11(1)) (simp add: delimited_simps)
  have b: "lex (show_elems ind (w # vs) @ rest) = app_opt (toks_elems (w # vs)) (lex rest)"
    by (rule 11(2)) (rule 11(3))
  show ?case using a b
    by (simp add: lex_spaces lex_punct lex_newline app_opt_simps(1,2,3))
next
  case (12 ind)
  then show ?case by (cases "lex rest") (simp_all add: app_opt_def)
next
  case (13 ind k v)
  have "lex (show_json ind v @ rest) = app_opt (toks v) (lex rest)"
    by (rule 13(1)) (rule 13(2))
  then show ?case
    by (simp add: lex_spaces lex_space lex_string lex_punct app_opt_simps(1,2,3))
next
  case (14 ind k v m ms)
  have a: "lex (show_json ind v @ (CHR '','' # newline # show_members ind (m # ms) @ rest))
        = app_opt (toks v) (lex (CHR '','' # newline # show_members ind (m # ms) @ rest))"
    by (rule 14(1)) (simp add: delimited_simps)
  have b: "lex (show_members ind (m # ms) @ rest) = app_opt (toks_members (m # ms)) (lex rest)"
    by (rule 14(2)) (rule 14(3))
  show ?case using a b
    by (simp add: lex_spaces lex_space lex_string lex_punct lex_newline app_opt_simps(1,2,3))
qed

lemma lex_Nil: "lex [] = Some []"
  by (subst lex.simps) simp

lemma lex_print: "lex (json_print v) = Some (toks v)"
  using lex_show(1) [of "[]" 0 v] by (simp add: json_print_def delimited_simps lex_Nil app_opt_def)



lemma toks_head: "toks v \<noteq> [] \<and> hd (toks v) \<noteq> TRBrack \<and> hd (toks v) \<noteq> TRBrace"
  by (cases v) auto

lemma toks_elems_head:
  "vs \<noteq> [] \<Longrightarrow> toks_elems vs \<noteq> [] \<and> hd (toks_elems vs) \<noteq> TRBrack"
  using toks_head by (cases vs rule: toks_elems.cases) (auto simp: hd_append)

lemma toks_members_head:
  "ms \<noteq> [] \<Longrightarrow> toks_members ms \<noteq> [] \<and> hd (toks_members ms) \<noteq> TRBrace"
  by (cases ms rule: toks_members.cases) auto

lemma parse_array:
  "ts \<noteq> [] \<Longrightarrow> hd ts \<noteq> TRBrack \<Longrightarrow>
   parse_value (Suc n) (TLBrack # ts) =
     (case parse_elems n ts of None \<Rightarrow> None | Some (vs, ts') \<Rightarrow> Some (JArr vs, ts'))"
  by (cases ts; cases "hd ts"; simp)

lemma parse_object:
  "ts \<noteq> [] \<Longrightarrow> hd ts \<noteq> TRBrace \<Longrightarrow>
   parse_value (Suc n) (TLBrace # ts) =
     (case parse_members n ts of None \<Rightarrow> None | Some (ms, ts') \<Rightarrow> Some (JObj ms, ts'))"
  by (cases ts; cases "hd ts"; simp)

lemma parse_toks:
  "length (toks v) \<le> n \<Longrightarrow> parse_value n (toks v @ rest) = Some (v, rest)"
  "vs \<noteq> [] \<Longrightarrow> length (toks_elems vs) + 1 \<le> n \<Longrightarrow>
     parse_elems n (toks_elems vs @ TRBrack # rest) = Some (vs, rest)"
  "ms \<noteq> [] \<Longrightarrow> length (toks_members ms) + 1 \<le> n \<Longrightarrow>
     parse_members n (toks_members ms @ TRBrace # rest) = Some (ms, rest)"
proof (induction v and vs and ms arbitrary: n rest and n rest and n rest
    rule: toks_toks_elems_toks_members.induct)
  case 1
  then show ?case by (cases n) simp_all
next
  case (2 b)
  then show ?case by (cases n) simp_all
next
  case (3 i)
  then show ?case by (cases n) simp_all
next
  case (4 s)
  then show ?case by (cases n) simp_all
next
  case (5 vs)
  then obtain k where n: "n = Suc k" by (cases n) auto
  show ?case
  proof (cases "vs = []")
    case True
    then show ?thesis using n by simp
  next
    case False
    have "parse_elems k (toks_elems vs @ TRBrack # rest) = Some (vs, rest)"
      using 5(1) [OF False, of k rest] 5(2) n by simp
    moreover have "toks_elems vs @ TRBrack # rest \<noteq> []"
      "hd (toks_elems vs @ TRBrack # rest) \<noteq> TRBrack"
      using toks_elems_head [OF False] by (simp_all add: hd_append)
    ultimately show ?thesis using n by (simp add: parse_array)
  qed
next
  case (6 ms)
  then obtain k where n: "n = Suc k" by (cases n) auto
  show ?case
  proof (cases "ms = []")
    case True
    then show ?thesis using n by simp
  next
    case False
    have "parse_members k (toks_members ms @ TRBrace # rest) = Some (ms, rest)"
      using 6(1) [OF False, of k rest] 6(2) n by simp
    moreover have "toks_members ms @ TRBrace # rest \<noteq> []"
      "hd (toks_members ms @ TRBrace # rest) \<noteq> TRBrace"
      using toks_members_head [OF False] by (simp_all add: hd_append)
    ultimately show ?thesis using n by (simp add: parse_object)
  qed
next
  case 7
  then show ?case by simp
next
  case (8 v)
  then obtain k where n: "n = Suc k" by (cases n) auto
  have "parse_value k (toks v @ TRBrack # rest) = Some (v, TRBrack # rest)"
    using 8(1) [of k "TRBrack # rest"] 8(3) n by simp
  then show ?case using n by simp
next
  case (9 v w vs)
  then obtain k where n: "n = Suc k" by (cases n) auto
  have a: "parse_value k (toks v @ TComma # toks_elems (w # vs) @ TRBrack # rest)
        = Some (v, TComma # toks_elems (w # vs) @ TRBrack # rest)"
    using 9(1) [of k "TComma # toks_elems (w # vs) @ TRBrack # rest"] 9(4) n by simp
  have b: "parse_elems k (toks_elems (w # vs) @ TRBrack # rest) = Some (w # vs, rest)"
    using 9(2) [of k rest] 9(4) n by simp
  show ?case using a b n by (simp add: cons_fst_def)
next
  case 10
  then show ?case by simp
next
  case (11 k' v)
  then obtain k where n: "n = Suc k" by (cases n) auto
  have "parse_value k (toks v @ TRBrace # rest) = Some (v, TRBrace # rest)"
    using 11(1) [of k "TRBrace # rest"] 11(3) n by simp
  then show ?case using n by simp
next
  case (12 k' v m ms)
  then obtain k where n: "n = Suc k" by (cases n) auto
  have a: "parse_value k (toks v @ TComma # toks_members (m # ms) @ TRBrace # rest)
        = Some (v, TComma # toks_members (m # ms) @ TRBrace # rest)"
    using 12(1) [of k "TComma # toks_members (m # ms) @ TRBrace # rest"] 12(4) n by simp
  have b: "parse_members k (toks_members (m # ms) @ TRBrace # rest) = Some (m # ms, rest)"
    using 12(2) [of k rest] 12(4) n by simp
  show ?case using a b n by (simp add: cons_fst_def)
qed

text \<open>Parsing the text printed for a value gives the value back.\<close>

lemma json_read_print: "json_read (json_print v) = Some v"
  using parse_toks(1) [of v "length (toks v)" "[]"]
  by (simp add: json_read_def lex_print)

section \<open>The file system\<close>


lemma lookup_append:
  "lookup fs (q @ r) = (case lookup fs q of None \<Rightarrow> None | Some n \<Rightarrow> lookup n r)"
proof (induction q arbitrary: fs)
  case Nil
  then show ?case by simp
next
  case (Cons s q)
  then show ?case by (cases fs) (auto split: option.splits)
qed

lemma lookup_modify_under:
  "lookup (modify q f fs) (q @ r) = (case lookup fs q of None \<Rightarrow> None | Some n \<Rightarrow> lookup (f n) r)"
proof (induction q arbitrary: fs)
  case Nil
  then show ?case by simp
next
  case (Cons s q)
  then show ?case by (cases fs) (auto simp: map_of_map_entry split: option.splits)
qed

lemma lookup_modify_above:
  "lookup (modify (p @ r) f fs) p = map_option (modify r f) (lookup fs p)"
proof (induction p arbitrary: fs)
  case Nil
  then show ?case by simp
next
  case (Cons s p)
  then show ?case by (cases fs) (auto simp: map_of_map_entry split: option.splits)
qed

lemma lookup_modify_apart:
  "\<not> prefix q p \<Longrightarrow> \<not> prefix p q \<Longrightarrow> lookup (modify q f fs) p = lookup fs p"
proof (induction q arbitrary: p fs)
  case Nil
  then show ?case by simp
next
  case (Cons s q)
  then obtain t p' where p: "p = t # p'" by (cases p) auto
  show ?case
  proof (cases fs)
    case (Dir es)
    show ?thesis
    proof (cases "t = s")
      case True
      with Cons p have "\<not> prefix q p'" "\<not> prefix p' q" by auto
      with Cons.IH have "\<And>c. lookup (modify q f c) p' = lookup c p'" by blast
      then show ?thesis using Dir p True by (auto simp: map_of_map_entry split: option.splits)
    next
      case False
      then show ?thesis using Dir p by (auto simp: map_of_map_entry split: option.splits)
    qed
  qed (use p in simp_all)
qed

lemma is_dir_conv: "is_dir x = (\<exists>n. x = Some n \<and> is_Dir n)"
  by (cases x rule: is_dir.cases) auto

lemma is_Dir_modify: "r \<noteq> [] \<Longrightarrow> is_Dir (modify r f n) = is_Dir n"
  by (cases r; cases n) auto

lemma is_Dir_set_entry: "is_Dir (set_entry x new n) = is_Dir n"
  by (cases n) auto

lemma is_Dir_del_entry: "is_Dir (del_entry x n) = is_Dir n"
  by (cases n) auto

lemma lookup_set_entry:
  "lookup (set_entry x new n) (y # r) =
     (if is_Dir n \<and> y = x then lookup new r else lookup n (y # r))"
  by (cases n) (auto simp: update_conv' split: option.splits)

lemma lookup_del_entry:
  "lookup (del_entry x n) (y # r) = (if y = x then None else lookup n (y # r))"
  by (cases n) (auto simp: delete_conv' split: option.splits)

lemma prefix_butlast_cases:
  assumes "new \<noteq> []" "\<not> prefix new p" "\<not> prefix p new"
  shows "(\<exists>y r. p = butlast new @ y # r \<and> y \<noteq> last new)
         \<or> (\<not> prefix (butlast new) p \<and> \<not> prefix p (butlast new))"
proof (cases "prefix (butlast new) p")
  case True
  then obtain r where r: "p = butlast new @ r" by (auto simp: prefix_def)
  have "r \<noteq> []"
  proof
    assume "r = []"
    then have "prefix p new" using r by (metis append_Nil2 prefixeq_butlast)
    with assms show False by simp
  qed
  then obtain y r' where yr: "r = y # r'" by (cases r) auto
  have "y \<noteq> last new"
  proof
    assume "y = last new"
    then have "p = new @ r'" using r yr assms(1) by (metis append.assoc append_Cons append_Nil append_butlast_last_id)
    with assms(2) show False by simp
  qed
  with r yr show ?thesis by blast
next
  case False
  have "\<not> prefix p (butlast new)"
    using assms(3) by (meson prefix_order.trans prefixeq_butlast)
  with False show ?thesis by blast
qed

lemma lookup_put_apart:
  assumes "new \<noteq> []" "\<not> prefix new p" "\<not> prefix p new"
  shows "lookup (put new n fs) p = lookup fs p"
  using prefix_butlast_cases [OF assms]
proof
  assume "\<exists>y r. p = butlast new @ y # r \<and> y \<noteq> last new"
  then obtain y r where p: "p = butlast new @ y # r" and y: "y \<noteq> last new" by blast
  show ?thesis using assms(1) y
    by (simp add: put_def p lookup_modify_under lookup_append [of fs "butlast new" "y # r"]
        lookup_set_entry split: option.splits)
next
  assume "\<not> prefix (butlast new) p \<and> \<not> prefix p (butlast new)"
  then show ?thesis using assms(1) by (simp add: put_def lookup_modify_apart)
qed

lemma lookup_remove_apart:
  assumes "old \<noteq> []" "\<not> prefix old p" "\<not> prefix p old"
  shows "lookup (remove old fs) p = lookup fs p"
  using prefix_butlast_cases [OF assms]
proof
  assume "\<exists>y r. p = butlast old @ y # r \<and> y \<noteq> last old"
  then obtain y r where p: "p = butlast old @ y # r" and y: "y \<noteq> last old" by blast
  show ?thesis using assms(1) y
    by (simp add: remove_def p lookup_modify_under lookup_append [of fs "butlast old" "y # r"]
        lookup_del_entry split: option.splits)
next
  assume "\<not> prefix (butlast old) p \<and> \<not> prefix p (butlast old)"
  then show ?thesis using assms(1) by (simp add: remove_def lookup_modify_apart)
qed

lemma lookup_put_under:
  assumes "new \<noteq> []" "is_dir (lookup fs (butlast new))"
  shows "lookup (put new n fs) (new @ r) = lookup n r"
proof -
  obtain d where d: "lookup fs (butlast new) = Some d" "is_Dir d"
    using assms(2) by (auto simp: is_dir_conv)
  have eq: "new @ r = butlast new @ (last new # r)" using assms(1) by simp
  have "put new n fs = modify (butlast new) (set_entry (last new) n) fs"
    using assms(1) by (simp add: put_def)
  then have "lookup (put new n fs) (new @ r)
      = lookup (modify (butlast new) (set_entry (last new) n) fs) (butlast new @ (last new # r))"
    by (simp only: eq)
  also have "\<dots> = lookup n r" using d
    by (simp only: lookup_modify_under) (simp add: lookup_set_entry)
  finally show ?thesis .
qed

lemma lookup_remove_under:
  assumes "old \<noteq> []"
  shows "lookup (remove old fs) (old @ r) = None"
proof -
  have eq: "old @ r = butlast old @ (last old # r)" using assms by simp
  have "remove old fs = modify (butlast old) (del_entry (last old)) fs"
    using assms by (simp add: remove_def)
  then have "lookup (remove old fs) (old @ r)
      = lookup (modify (butlast old) (del_entry (last old)) fs) (butlast old @ (last old # r))"
    by (simp only: eq)
  also have "\<dots> = None"
    by (simp only: lookup_modify_under) (simp add: lookup_del_entry split: option.splits)
  finally show ?thesis .
qed

lemma is_dir_put_above:
  assumes "new \<noteq> []" "strict_prefix p new"
  shows "is_dir (lookup (put new n fs) p) = is_dir (lookup fs p)"
proof (cases "p = butlast new")
  case True
  have "lookup (modify (butlast new) (set_entry (last new) n) fs) (butlast new @ [])
      = (case lookup fs (butlast new) of None \<Rightarrow> None | Some d \<Rightarrow> lookup (set_entry (last new) n d) [])"
    by (rule lookup_modify_under)
  then show ?thesis using assms(1) True
    by (auto simp: put_def is_dir_conv is_Dir_set_entry split: option.splits)
next
  case False
  from assms(2) obtain r where r: "new = p @ r" "r \<noteq> []" by (auto simp: strict_prefix_def prefix_def)
  then have "butlast new = p @ butlast r" by (simp add: butlast_append)
  moreover have "butlast r \<noteq> []" using False calculation by auto
  ultimately show ?thesis using assms(1)
    by (auto simp: put_def lookup_modify_above is_dir_conv is_Dir_modify)
qed

lemma is_dir_remove_above:
  assumes "old \<noteq> []" "strict_prefix p old"
  shows "is_dir (lookup (remove old fs) p) = is_dir (lookup fs p)"
proof (cases "p = butlast old")
  case True
  have "lookup (modify (butlast old) (del_entry (last old)) fs) (butlast old @ [])
      = (case lookup fs (butlast old) of None \<Rightarrow> None | Some d \<Rightarrow> lookup (del_entry (last old) d) [])"
    by (rule lookup_modify_under)
  then show ?thesis using assms(1) True
    by (auto simp: remove_def is_dir_conv is_Dir_del_entry split: option.splits)
next
  case False
  from assms(2) obtain r where r: "old = p @ r" "r \<noteq> []" by (auto simp: strict_prefix_def prefix_def)
  then have "butlast old = p @ butlast r" by (simp add: butlast_append)
  moreover have "butlast r \<noteq> []" using False calculation by auto
  ultimately show ?thesis using assms(1)
    by (auto simp: remove_def lookup_modify_above is_dir_conv is_Dir_modify)
qed


subsection \<open>Paths\<close>

lemma is_clean_norm_step: "is_clean acc \<Longrightarrow> is_clean (norm_step acc s)"
  by (auto simp: is_clean_def norm_step_def dest: in_set_butlastD)

lemma is_clean_foldl: "is_clean acc \<Longrightarrow> is_clean (foldl norm_step acc xs)"
  by (induction xs arbitrary: acc) (simp_all add: is_clean_norm_step)

lemma is_clean_normalize: "is_clean (normalize xs)"
proof -
  have "is_clean []" by (simp add: is_clean_def)
  then show ?thesis by (simp only: normalize_def is_clean_foldl)
qed

lemma foldl_norm_step_clean: "is_clean p \<Longrightarrow> foldl norm_step acc p = acc @ p"
  by (induction p arbitrary: acc) (auto simp: is_clean_def norm_step_def)

lemma normalize_clean: "is_clean p \<Longrightarrow> normalize p = p"
  by (simp add: normalize_def foldl_norm_step_clean)

lemma is_clean_join: "is_clean (fst (join b s))"
  by (simp add: join_def is_clean_normalize Let_def)

lemma split_slash_simple: "CHR ''/'' \<notin> set s \<Longrightarrow> split_slash s = [s]"
  by (induction s) auto

lemma join_simple:
  "simple_segment x \<Longrightarrow> is_clean (fst b) \<Longrightarrow> join b x = (fst b @ [x], False)"
proof -
  assume x: "simple_segment x" and b: "is_clean (fst b)"
  from x have "x \<noteq> []" "CHR ''/'' \<notin> set x" by (simp_all add: simple_segment_def)
  then have "last x \<noteq> CHR ''/''" using last_in_set by metis
  then show ?thesis using x b
    by (simp add: join_def simple_segment_def split_slash_simple normalize_def
        foldl_norm_step_clean norm_step_def)
qed

lemma join_parent: "is_clean (fst b) \<Longrightarrow> join b ''..'' = (butlast (fst b), False)"
proof -
  have "split_slash ''..'' = [''..'']" by (simp add: split_slash_simple)
  then show "is_clean (fst b) \<Longrightarrow> join b ''..'' = (butlast (fst b), False)"
    by (simp add: join_def normalize_def foldl_norm_step_clean norm_step_def)
qed

lemma join_trailing: "snd (join b s) \<Longrightarrow> s = [] \<and> snd b \<or> s \<noteq> [] \<and> last s = CHR ''/''"
  by (auto simp: join_def Let_def split: if_splits)

lemma simple_segments:
  "simple_segment ''projects''" "simple_segment ''files''" "simple_segment ''config.json''"
  "simple_segment ''guidelines.md''"
  by (simp_all add: simple_segment_def)

lemma is_clean_paths:
  "is_clean (fst (getWorkspaceProjectsPath root))" "is_clean (fst (getProjectPath root slug))"
  "is_clean (fst (getProjectFilesPath root slug))"
  by (simp_all add: getWorkspaceProjectsPath_def getProjectPath_def getProjectFilesPath_def
      is_clean_join)

lemma getProjectFilesPath_eq:
  "getProjectFilesPath root slug = (fst (getProjectPath root slug) @ [''files''], False)"
  by (simp add: getProjectFilesPath_def join_simple simple_segments is_clean_paths)

lemma getWorkspaceProjectsPath_plain: "\<not> snd (getWorkspaceProjectsPath root)"
  by (simp add: getWorkspaceProjectsPath_def join_def Let_def)

text \<open>The functions of \<^verbatim>\<open>fs\<close> on a path string that does not end with a separator.\<close>

lemma resolve_plain: "resolve fs (p, False) = lookup fs p"
  by (simp add: resolve_def split: option.splits)

lemma existsSync_plain: "existsSync fs (p, False) = (lookup fs p \<noteq> None)"
  by (simp add: existsSync_def resolve_plain)


lemma resolve_dir: "is_dir (resolve fs p) = is_dir (lookup fs (fst p))"
  by (cases "lookup fs (fst p)") (auto simp: resolve_def elim: is_Dir.elims)

lemma existsSync_lookup: "existsSync fs p \<Longrightarrow> lookup fs (fst p) \<noteq> None"
  by (auto simp: existsSync_def resolve_def split: option.splits)

lemma mkdirSync_plain: "mkdirSync (p, t) fs = mkdir_p p fs"
  by (simp add: mkdirSync_def)

lemma writeFileSync_plain: "writeFileSync (p, False) c fs = write_at p c fs"
  by (simp add: writeFileSync_def)

lemma writeFileSync_trailing: "snd p \<Longrightarrow> \<exists>e. writeFileSync p c fs = Inl e"
  by (simp add: writeFileSync_def)

lemma unlinkSync_plain: "unlinkSync (p, False) fs = unlink_at p fs"
  by (auto simp: unlinkSync_def unlink_at_def resolve_plain missing_def split: option.splits)

lemma readFileSync_plain:
  "readFileSync (p, False) fs =
     (case lookup fs p of None \<Rightarrow> Inl ENOENT | Some (File c) \<Rightarrow> Inr c
      | Some (Dir es) \<Rightarrow> Inl EISDIR | Some Other \<Rightarrow> Inl ENXIO)"
  by (simp add: readFileSync_def resolve_plain missing_def split: option.splits)

lemma slug_simple:
  assumes "\<forall>c\<in>set s. is_az09 c \<or> c = CHR ''-''" "s \<noteq> []"
  shows "simple_segment s"
proof -
  have "\<not> is_az09 CHR ''.''" "\<not> is_az09 CHR ''/''" by (simp_all add: is_az09_def code_def)
  then have "CHR ''.'' \<notin> set s" "CHR ''/'' \<notin> set s" using assms(1) by auto
  then show ?thesis using assms(2) by (auto simp: simple_segment_def)
qed

lemma generateSlug_simple: "simple_segment (generateSlug name)"
  using generateSlug_shape [of name] by (simp add: slug_simple)

lemma candidate_simple: "simple_segment s \<Longrightarrow> simple_segment (candidate s k)"
proof -
  assume s: "simple_segment s"
  have "CHR ''-'' \<in> set (candidate s k)" by (simp add: candidate_def)
  from dash_segment [OF this] show ?thesis
    using s show_nat_no_slash [of k] by (simp add: simple_segment_def candidate_def)
qed

subsection \<open>Creating directories\<close>

lemma mkdir_p_is_dir:
  "mkdir_p q fs = Inr fs' \<Longrightarrow> prefix p q \<Longrightarrow> is_dir (lookup fs' p)"
proof (induction q arbitrary: fs fs' p)
  case Nil
  then show ?case by (cases fs) auto
next
  case (Cons s q)
  then obtain es where fs: "fs = Dir es" by (cases fs) auto
  show ?case
  proof (cases p)
    case Nil
    with Cons.prems fs show ?thesis by (auto split: option.splits sum.splits)
  next
    case (Cons t p')
    with Cons.prems have t: "t = s" and pp: "prefix p' q" by auto
    show ?thesis
    proof (cases "map_of es s")
      case None
      with Cons.prems fs obtain c where c: "mkdir_p q (Dir []) = Inr c" "fs' = Dir (AList.update s c es)"
        by (auto split: sum.splits)
      from Cons.IH [OF c(1) pp] show ?thesis using c(2) Cons t by (simp add: update_conv')
    next
      case (Some c0)
      with Cons.prems fs obtain c where c: "mkdir_p q c0 = Inr c" "fs' = Dir (AList.update s c es)"
        by (auto split: sum.splits)
      from Cons.IH [OF c(1) pp] show ?thesis using c(2) Cons t by (simp add: update_conv')
    qed
  qed
qed

lemma lookup_empty_dir: "p \<noteq> [] \<Longrightarrow> lookup (Dir []) p = None"
  by (cases p) auto

lemma mkdir_p_apart:
  "mkdir_p q fs = Inr fs' \<Longrightarrow> \<not> prefix p q \<Longrightarrow> lookup fs' p = lookup fs p"
proof (induction q arbitrary: fs fs' p)
  case Nil
  then show ?case by (cases fs) auto
next
  case (Cons s q)
  then obtain es where fs: "fs = Dir es" by (cases fs) auto
  from Cons.prems obtain t p' where p: "p = t # p'" by (cases p) auto
  show ?case
  proof (cases "t = s")
    case False
    with Cons.prems fs p show ?thesis
      by (auto simp: update_conv' split: option.splits sum.splits)
  next
    case True
    with Cons.prems p have np: "\<not> prefix p' q" by simp
    show ?thesis
    proof (cases "map_of es s")
      case None
      with Cons.prems fs obtain c where c: "mkdir_p q (Dir []) = Inr c" "fs' = Dir (AList.update s c es)"
        by (auto split: sum.splits)
      have "p' \<noteq> []" using np by auto
      with Cons.IH [OF c(1) np] have "lookup c p' = None" by (simp add: lookup_empty_dir)
      then show ?thesis using c(2) p True fs None by (simp add: update_conv')
    next
      case (Some c0)
      with Cons.prems fs obtain c where c: "mkdir_p q c0 = Inr c" "fs' = Dir (AList.update s c es)"
        by (auto split: sum.splits)
      from Cons.IH [OF c(1) np] show ?thesis using c(2) p True fs Some by (simp add: update_conv')
    qed
  qed
qed

lemma mkdir_p_keeps_dir:
  assumes "mkdir_p q fs = Inr fs'" "is_dir (lookup fs p)"
  shows "is_dir (lookup fs' p)"
proof (cases "prefix p q")
  case True
  with assms(1) show ?thesis by (rule mkdir_p_is_dir)
next
  case False
  with assms show ?thesis by (simp add: mkdir_p_apart)
qed

lemma update_absent: "map_of es x = None \<Longrightarrow> AList.update x v es = es @ [(x, v)]"
  by (induction es) (auto split: if_splits)

lemma mkdir_p_new:
  "lookup fs q = Some (Dir es) \<Longrightarrow> map_of es x = None \<Longrightarrow>
   mkdir_p (q @ [x]) fs = Inr (put (q @ [x]) (Dir []) fs)"
proof (induction q arbitrary: fs)
  case Nil
  then show ?case by (simp add: put_def)
next
  case (Cons s q)
  then obtain ds c where fs: "fs = Dir ds" "map_of ds s = Some c" "lookup c q = Some (Dir es)"
    by (cases fs) (auto split: option.splits)
  from Cons.IH [OF fs(3) Cons.prems(2)]
  have "mkdir_p (q @ [x]) c = Inr (put (q @ [x]) (Dir []) c)" .
  moreover have "AList.update s (modify q f c) ds = AList.map_entry s (modify q f) ds" for f
    using fs(2) by (induction ds) (auto split: if_splits)
  ultimately show ?case using fs by (simp add: put_def)
qed

lemma mkdir_p_empty: "\<exists>c. mkdir_p q (Dir []) = Inr c"
  by (induction q) auto

lemma mkdir_p_returns_iff:
  "(\<exists>fs'. mkdir_p q fs = Inr fs')
   = (\<forall>p. prefix p q \<and> lookup fs p \<noteq> None \<longrightarrow> is_dir (lookup fs p))"
proof (induction q arbitrary: fs)
  case Nil
  then show ?case by (cases fs) auto
next
  case (Cons s q)
  show ?case
  proof (cases fs)
    case (Dir es)
    show ?thesis
    proof (cases "map_of es s")
      case None
      obtain c where "mkdir_p q (Dir []) = Inr c" using mkdir_p_empty by blast
      then have "\<exists>fs'. mkdir_p (s # q) fs = Inr fs'" using Dir None by simp
      moreover have "\<forall>p. prefix p (s # q) \<and> lookup fs p \<noteq> None \<longrightarrow> is_dir (lookup fs p)"
      proof (intro allI impI)
        fix p
        assume "prefix p (s # q) \<and> lookup fs p \<noteq> None"
        then show "is_dir (lookup fs p)" using Dir None by (cases p) auto
      qed
      ultimately show ?thesis by blast
    next
      case (Some c)
      have "(\<exists>fs'. mkdir_p (s # q) fs = Inr fs') = (\<exists>c'. mkdir_p q c = Inr c')"
        using Dir Some by (auto split: sum.splits)
      also have "\<dots> = (\<forall>p. prefix p q \<and> lookup c p \<noteq> None \<longrightarrow> is_dir (lookup c p))"
        by (rule Cons.IH)
      also have "\<dots> = (\<forall>p. prefix p (s # q) \<and> lookup fs p \<noteq> None \<longrightarrow> is_dir (lookup fs p))"
      proof
        assume a: "\<forall>p. prefix p q \<and> lookup c p \<noteq> None \<longrightarrow> is_dir (lookup c p)"
        show "\<forall>p. prefix p (s # q) \<and> lookup fs p \<noteq> None \<longrightarrow> is_dir (lookup fs p)"
        proof (intro allI impI)
          fix p
          assume p: "prefix p (s # q) \<and> lookup fs p \<noteq> None"
          show "is_dir (lookup fs p)"
          proof (cases p)
            case Nil
            then show ?thesis using Dir by simp
          next
            case (Cons t p')
            with p a Dir Some show ?thesis by auto
          qed
        qed
      next
        assume a: "\<forall>p. prefix p (s # q) \<and> lookup fs p \<noteq> None \<longrightarrow> is_dir (lookup fs p)"
        show "\<forall>p. prefix p q \<and> lookup c p \<noteq> None \<longrightarrow> is_dir (lookup c p)"
        proof (intro allI impI)
          fix p
          assume "prefix p q \<and> lookup c p \<noteq> None"
          then have "prefix (s # p) (s # q) \<and> lookup fs (s # p) \<noteq> None" using Dir Some by simp
          with a have "is_dir (lookup fs (s # p))" by blast
          then show "is_dir (lookup c p)" using Dir Some by simp
        qed
      qed
      finally show ?thesis .
    qed
  next
    case (File x)
    have "\<not> (\<forall>p. prefix p (s # q) \<and> lookup fs p \<noteq> None \<longrightarrow> is_dir (lookup fs p))"
      using File by (auto intro: exI [of _ "[]"])
    then show ?thesis using File by simp
  next
    case Other
    have "\<not> (\<forall>p. prefix p (s # q) \<and> lookup fs p \<noteq> None \<longrightarrow> is_dir (lookup fs p))"
      using Other by (auto intro: exI [of _ "[]"])
    then show ?thesis using Other by simp
  qed
qed

subsection \<open>Writing and removing files\<close>

lemma lookup_below_file:
  "lookup fs p = Some n \<Longrightarrow> \<not> is_Dir n \<Longrightarrow> r \<noteq> [] \<Longrightarrow> lookup fs (p @ r) = None"
  by (cases n; cases r) (simp_all add: lookup_append)

lemma lookup_prefix_dir:
  assumes "lookup fs (p @ r) \<noteq> None" "r \<noteq> []"
  shows "is_dir (lookup fs p)"
proof (cases "lookup fs p")
  case None
  with assms show ?thesis by (simp add: lookup_append)
next
  case (Some n)
  with assms lookup_below_file [OF Some, of r] show ?thesis
    by (cases "is_Dir n") (auto simp: is_dir_conv)
qed

lemma write_at_lookup:
  "write_at p t fs = Inr fs' \<Longrightarrow> lookup fs' p = Some (File t)"
proof -
  assume a: "write_at p t fs = Inr fs'"
  then have p: "p \<noteq> []" and d: "is_dir (lookup fs (butlast p))" and fs': "fs' = put p (File t) fs"
    by (auto simp: write_at_def split: if_splits option.splits node.splits)
  from lookup_put_under [OF p d, of "File t" "[]"] fs' show ?thesis by simp
qed

lemma write_at_apart:
  "write_at p t fs = Inr fs' \<Longrightarrow> \<not> prefix p q \<Longrightarrow> \<not> prefix q p \<Longrightarrow>
   lookup fs' q = lookup fs q"
  by (auto simp: write_at_def lookup_put_apart split: if_splits option.splits node.splits)

lemma write_at_keeps_dir:
  assumes "write_at p t fs = Inr fs'" "is_dir (lookup fs q)"
  shows "is_dir (lookup fs' q)"
proof -
  from assms(1) have p: "p \<noteq> []" and fs': "fs' = put p (File t) fs"
    and nd: "\<not> is_dir (lookup fs p)"
    by (auto simp: write_at_def split: if_splits option.splits node.splits)
  have np: "\<not> prefix p q"
  proof
    assume "prefix p q"
    then obtain r where r: "q = p @ r" by (auto simp: prefix_def)
    show False
    proof (cases "r = []")
      case True
      with r assms(2) nd show False by simp
    next
      case False
      from assms(2) r have "lookup fs (p @ r) \<noteq> None" by (auto simp: is_dir_conv)
      from lookup_prefix_dir [OF this False] nd show False by simp
    qed
  qed
  show ?thesis
  proof (cases "prefix q p")
    case True
    with np have "strict_prefix q p" by (auto simp: strict_prefix_def)
    from is_dir_put_above [OF p this] assms(2) fs' show ?thesis by simp
  next
    case False
    with np assms fs' p show ?thesis by (simp add: lookup_put_apart)
  qed
qed


lemma unlink_at_apart:
  "unlink_at p fs = Inr fs' \<Longrightarrow> \<not> prefix p q \<Longrightarrow> \<not> prefix q p \<Longrightarrow>
   lookup fs' q = lookup fs q"
  by (auto simp: unlink_at_def lookup_remove_apart split: if_splits option.splits node.splits)

lemma unlink_at_keeps_dir:
  assumes "unlink_at p fs = Inr fs'" "is_dir (lookup fs q)"
  shows "is_dir (lookup fs' q)"
proof -
  from assms(1) have p: "p \<noteq> []" and fs': "fs' = remove p fs"
    and nd: "\<not> is_dir (lookup fs p)"
    by (auto simp: unlink_at_def split: if_splits option.splits node.splits)
  have np: "\<not> prefix p q"
  proof
    assume "prefix p q"
    then obtain r where r: "q = p @ r" by (auto simp: prefix_def)
    show False
    proof (cases "r = []")
      case True
      with r assms(2) nd show False by simp
    next
      case False
      from assms(2) r have "lookup fs (p @ r) \<noteq> None" by (auto simp: is_dir_conv)
      from lookup_prefix_dir [OF this False] nd show False by simp
    qed
  qed
  show ?thesis
  proof (cases "prefix q p")
    case True
    with np have "strict_prefix q p" by (auto simp: strict_prefix_def)
    from is_dir_remove_above [OF p this] assms(2) fs' show ?thesis by simp
  next
    case False
    with np assms fs' p show ?thesis by (simp add: lookup_remove_apart)
  qed
qed

lemma siblings_apart: "x \<noteq> y \<Longrightarrow> \<not> prefix (b @ [x]) (b @ [y])"
  by simp


section \<open>JavaScript values\<close>

lemma map_of_update_fun: "map_of (AList.update k v ps) = (map_of ps)(k \<mapsto> v)"
  by (rule update_conv')

lemma define_all_Cons: "define_all obj ((k, v) # ps) = define_all (assign k v obj) ps"
  by (simp add: define_all_def)

lemma define_all_Nil: "define_all obj [] = obj"
  by (simp add: define_all_def)

lemma map_of_define_all:
  "distinct (map fst ps) \<Longrightarrow> map_of (define_all obj ps) = map_of obj ++ map_of ps"
proof (induction ps arbitrary: obj)
  case Nil
  then show ?case by (simp add: define_all_Nil)
next
  case (Cons p ps)
  obtain k v where p: "p = (k, v)" by (cases p)
  have "map_of ps k = None" using Cons.prems p by (simp add: map_of_eq_None_iff)
  then have a: "map_of (assign k v obj) ++ map_of ps = map_of obj ++ map_of (p # ps)"
    using p by (auto simp: assign_def update_conv' map_add_def fun_eq_iff split: option.splits)
  have "map_of (define_all obj (p # ps)) = map_of (assign k v obj) ++ map_of ps"
    using Cons p by (simp add: define_all_Cons)
  then show ?case using a by (rule trans)
qed

lemma distinct_define_all:
  "distinct (map fst obj) \<Longrightarrow> distinct (map fst (define_all obj ps))"
proof (induction ps arbitrary: obj)
  case Nil
  then show ?case by (simp add: define_all_Nil)
next
  case (Cons p ps)
  then show ?case by (cases p) (simp add: define_all_Cons assign_def distinct_update)
qed

lemma define_all_distinct:
  "distinct (map fst (obj @ ps)) \<Longrightarrow> define_all obj ps = obj @ ps"
proof (induction ps arbitrary: obj)
  case Nil
  then show ?case by (simp add: define_all_Nil)
next
  case (Cons p ps)
  obtain k v where p: "p = (k, v)" by (cases p)
  have "map_of obj k = None" using Cons.prems p by (auto simp: map_of_eq_None_iff)
  then have a: "assign k v obj = obj @ [(k, v)]" by (simp add: assign_def update_absent)
  have "distinct (map fst ((obj @ [(k, v)]) @ ps))" using Cons.prems p by simp
  from Cons.IH [OF this] show ?case using p a by (simp add: define_all_Cons)
qed

lemma of_to_json_plain:
  "plain v \<Longrightarrow> of_json (to_json v) = v"
  "plain_list vs \<Longrightarrow> of_json_list (to_json_list vs) = vs"
  "plain_members ms \<Longrightarrow> of_json_members (to_json_members ms) = ms"
proof (induction v and vs and ms rule: to_json_to_json_list_to_json_members.induct)
  case (10 ms)
  then show ?case by (simp add: define_all_distinct [of "[]", simplified])
qed (simp_all split: number.splits)

lemma plain_members_iff: "plain_members ms = (\<forall>(k, v)\<in>set ms. plain v)"
  by (induction ms) auto

lemma plain_list_iff: "plain_list vs = (\<forall>v\<in>set vs. plain v)"
  by (induction vs) auto

lemma plain_members_assign:
  "plain_members obj \<Longrightarrow> plain v \<Longrightarrow> plain_members (assign k v obj)"
  by (induction obj) (auto simp: assign_def)

lemma plain_members_define_all:
  "plain_members obj \<Longrightarrow> plain_members ps \<Longrightarrow> plain_members (define_all obj ps)"
proof (induction ps arbitrary: obj)
  case Nil
  then show ?case by (simp add: define_all_Nil)
next
  case (Cons p ps)
  then show ?case by (cases p) (simp add: define_all_Cons plain_members_assign)
qed

lemma plain_of_json:
  "plain (of_json j)" "plain_list (of_json_list js)" "plain_members (of_json_members ms)"
proof (induction j and js and ms rule: of_json_of_json_list_of_json_members.induct)
  case (6 ms)
  have "distinct (map fst (define_all [] (of_json_members ms)))"
    by (rule distinct_define_all) simp
  then show ?case using 6 by (simp add: plain_members_define_all)
qed simp_all

lemma to_json_members_Cons:
  "to_json_members ((k, v) # ms)
   = (if v = VUndefined then to_json_members ms else (k, to_json v) # to_json_members ms)"
  by (cases v) simp_all

lemma to_json_members_keys: "set (map fst (to_json_members ms)) \<subseteq> set (map fst ms)"
proof (induction ms)
  case Nil
  then show ?case by simp
next
  case (Cons p ms)
  obtain k v where p: "p = (k, v)" by (cases p)
  show ?case using Cons unfolding p to_json_members_Cons by (cases "v = VUndefined") auto
qed

lemma distinct_to_json_members:
  "distinct (map fst ms) \<Longrightarrow> distinct (map fst (to_json_members ms))"
proof (induction ms)
  case Nil
  then show ?case by simp
next
  case (Cons p ms)
  obtain k v where p: "p = (k, v)" by (cases p)
  have "k \<notin> set (map fst (to_json_members ms))"
    using Cons.prems p to_json_members_keys [of ms] by auto
  then show ?case using Cons p by (simp add: to_json_members_Cons)
qed

lemma of_json_members_keys: "map fst (of_json_members ms) = map fst ms"
  by (induction ms) auto

lemma map_of_reread:
  "distinct (map fst ms) \<Longrightarrow>
   map_of (of_json_members (to_json_members ms)) k
   = (case map_of ms k of None \<Rightarrow> None
      | Some v \<Rightarrow> if v = VUndefined then None else Some (of_json (to_json v)))"
proof (induction ms)
  case Nil
  then show ?case by simp
next
  case (Cons p ms)
  obtain k' v where p: "p = (k', v)" by (cases p)
  then have "map_of ms k' = None" using Cons.prems by (simp add: map_of_eq_None_iff)
  then show ?case using Cons p by (auto simp: to_json_members_Cons split: option.splits)
qed

lemma property_reread:
  assumes "distinct (map fst ms)"
  shows "property (of_json (to_json (VObj ms))) k = reread (obj_get ms k)"
proof -
  have "distinct (map fst (of_json_members (to_json_members ms)))"
    using assms by (simp add: of_json_members_keys distinct_to_json_members)
  then have "define_all [] (of_json_members (to_json_members ms))
      = of_json_members (to_json_members ms)"
    using define_all_distinct [of "[]"] by simp
  then show ?thesis using map_of_reread [OF assms, of k]
    by (simp add: property_def obj_get_def reread_def split: option.splits)
qed

lemma reread_plain: "plain v \<Longrightarrow> reread v = v"
  by (simp add: reread_def of_to_json_plain)

lemma JSON_parse_stringify: "JSON_parse (JSON_stringify v) = Some (of_json (to_json v))"
  by (simp add: JSON_parse_def JSON_stringify_def json_read_print)

lemma distinct_indices: "distinct (map show_nat [0..<n])"
proof -
  have "inj_on show_nat (set [0..<n])" by (rule inj_onI) (rule show_nat_inj)
  then show ?thesis by (simp add: distinct_map)
qed

lemma own_props_plain:
  assumes "plain v"
  shows "distinct (map fst (own_props v))" "plain_members (own_props v)"
proof -
  show "distinct (map fst (own_props v))"
    using assms distinct_indices by (cases v) simp_all
  show "plain_members (own_props v)"
    using assms
    by (cases v) (auto simp: plain_members_iff plain_list_iff dest!: set_zip_rightD)
qed


section \<open>Configuration files\<close>

lemma project_files:
  "join (getProjectPath root slug) ''config.json''
   = (fst (getProjectPath root slug) @ [''config.json''], False)"
  "join (getProjectPath root slug) ''guidelines.md''
   = (fst (getProjectPath root slug) @ [''guidelines.md''], False)"
  "join (getProjectPath root slug) ''files''
   = (fst (getProjectPath root slug) @ [''files''], False)"
  by (simp_all add: join_simple simple_segments is_clean_paths)

lemma saveProjectConfig_written:
  assumes "fst (saveProjectConfig root slug c now fs) = Inr ()"
  shows "lookup (snd (saveProjectConfig root slug c now fs))
           (fst (getProjectPath root slug) @ [''config.json''])
         = Some (File (JSON_stringify (storageConfig c now)))"
  using assms
  by (auto simp: saveProjectConfig_def Let_def project_files writeFileSync_plain write_at_lookup
      split: sum.splits if_splits)

lemma loadProjectConfig_file:
  "lookup fs (fst (getProjectPath root slug) @ [''config.json'']) = Some (File (JSON_stringify v))
   \<Longrightarrow> loadProjectConfig fs root slug = of_json (to_json v)"
  by (simp add: loadProjectConfig_def project_files existsSync_plain readFileSync_plain
      JSON_parse_stringify)

lemma object_of_config_keys:
  "map fst (object_of_config c)
   = [''id'', ''name'', ''slug'', ''description'', ''guidelines'', ''createdAt'', ''updatedAt'',
      ''enabledSourceSlugs'']"
  by (simp add: object_of_config_def)

lemma storageConfig_object:
  "storageConfig (VObj (object_of_config c)) now
   = VObj (object_of_config (c \<lparr> pc_updatedAt := Finite now \<rparr>))"
proof -
  have "distinct (map fst ([] @ object_of_config c))" by (simp add: object_of_config_keys)
  then have "define_all [] (object_of_config c) = object_of_config c"
    using define_all_distinct [of "[]" "object_of_config c"] by simp
  then show ?thesis
    by (simp add: storageConfig_def spread_def) (simp add: object_of_config_def assign_def)
qed

lemma plain_strings: "plain_list (map VStr xs)"
  by (induction xs) simp_all

lemma reread_object_of_config:
  assumes "pc_createdAt c = Finite t" "pc_updatedAt c = Finite u"
  shows "reread (obj_get (object_of_config c) k) = obj_get (object_of_config c) k"
proof -
  have "v = VUndefined \<or> plain v" if "(k', v) \<in> set (object_of_config c)" for k' v
    using that assms
    by (auto simp: object_of_config_def optional_def plain_strings split: option.splits)
  then have "obj_get (object_of_config c) k = VUndefined \<or> plain (obj_get (object_of_config c) k)"
    by (auto simp: obj_get_def split: option.splits dest: map_of_SomeD)
  then show ?thesis by (auto simp: reread_plain) (simp add: reread_def)
qed

lemma save_then_load_value:
  assumes "fst (saveProjectConfig root slug c now fs) = Inr ()"
  shows "loadProjectConfig (snd (saveProjectConfig root slug c now fs)) root slug
         = of_json (to_json (storageConfig c now))"
  using saveProjectConfig_written [OF assms] by (rule loadProjectConfig_file)

text \<open>
  Claim C1 says that \<open>saveProjectConfig\<close> followed by \<open>loadProjectConfig\<close> returns the
  saved configuration in every field except \<open>updatedAt\<close>, for every \<open>ProjectConfig\<close>.
  The field \<open>createdAt\<close> is a \<^verbatim>\<open>number\<close>, and \<^verbatim>\<open>JSON.stringify\<close> writes
  \<^verbatim>\<open>null\<close> for \<^verbatim>\<open>NaN\<close> (and for an infinite number): such a \<open>createdAt\<close> is read
  back as \<^verbatim>\<open>null\<close>.
\<close>

theorem createdAt_NaN_is_read_back_as_null:
  "fst (saveProjectConfig [''w''] ''p''
          (VObj (object_of_config
             \<lparr> pc_id = ''proj_1a2b3c4d'', pc_name = ''P'', pc_slug = ''p'', pc_description = None,
               pc_guidelines = None, pc_createdAt = NaN, pc_updatedAt = Finite 5,
               pc_enabledSourceSlugs = None \<rparr>)) 9 (Dir [])) = Inr ()
   \<and> property
        (loadProjectConfig
           (snd (saveProjectConfig [''w''] ''p''
              (VObj (object_of_config
                 \<lparr> pc_id = ''proj_1a2b3c4d'', pc_name = ''P'', pc_slug = ''p'',
                   pc_description = None, pc_guidelines = None, pc_createdAt = NaN,
                   pc_updatedAt = Finite 5, pc_enabledSourceSlugs = None \<rparr>)) 9 (Dir [])))
           [''w''] ''p'')
        ''createdAt'' = VNull
   \<and> property
        (VObj (object_of_config
           \<lparr> pc_id = ''proj_1a2b3c4d'', pc_name = ''P'', pc_slug = ''p'', pc_description = None,
             pc_guidelines = None, pc_createdAt = NaN, pc_updatedAt = Finite 5,
             pc_enabledSourceSlugs = None \<rparr>))
        ''createdAt'' = VNum NaN"
proof -
  let ?c = "\<lparr> pc_id = ''proj_1a2b3c4d'', pc_name = ''P'', pc_slug = ''p'', pc_description = None,
               pc_guidelines = None, pc_createdAt = NaN, pc_updatedAt = Finite 5,
               pc_enabledSourceSlugs = None \<rparr>"
  have s: "fst (saveProjectConfig [''w''] ''p'' (VObj (object_of_config ?c)) 9 (Dir [])) = Inr ()"
    by code_simp
  have "property (of_json (to_json (storageConfig (VObj (object_of_config ?c)) 9))) ''createdAt''
      = VNull"
    by code_simp
  then have "property (loadProjectConfig
       (snd (saveProjectConfig [''w''] ''p'' (VObj (object_of_config ?c)) 9 (Dir []))) [''w''] ''p'')
       ''createdAt'' = VNull"
    using save_then_load_value [OF s] by simp
  moreover have "property (VObj (object_of_config ?c)) ''createdAt'' = VNum NaN" by code_simp
  ultimately show ?thesis using s by blast
qed

text \<open>
  Claim C1, amended: for every \<open>ProjectConfig\<close> whose \<open>createdAt\<close> is a finite
  number, \<open>saveProjectConfig\<close> followed by \<open>loadProjectConfig\<close> returns a configuration
  equal to the saved one in every field except \<open>updatedAt\<close>, which is the time read at
  the save. Two configurations are equal in every field when every property access gives
  the same value on both. The save can throw (the project path or \<^verbatim>\<open>config.json\<close> can
  be taken by something that is not a directory or not a file); the statement is about a
  save that returns.
\<close>

theorem save_then_load:
  assumes "fst (saveProjectConfig root slug (VObj (object_of_config c)) now fs) = Inr ()"
    and "pc_createdAt c = Finite t"
  shows "property
           (loadProjectConfig
              (snd (saveProjectConfig root slug (VObj (object_of_config c)) now fs)) root slug) k
         = property (VObj (object_of_config (c \<lparr> pc_updatedAt := Finite now \<rparr>))) k"
proof -
  let ?c' = "c \<lparr> pc_updatedAt := Finite now \<rparr>"
  have "loadProjectConfig
          (snd (saveProjectConfig root slug (VObj (object_of_config c)) now fs)) root slug
        = of_json (to_json (VObj (object_of_config ?c')))"
    using save_then_load_value [OF assms(1)] by (simp add: storageConfig_object)
  moreover have "property (of_json (to_json (VObj (object_of_config ?c')))) k
      = reread (obj_get (object_of_config ?c') k)"
    by (rule property_reread) (simp add: object_of_config_keys)
  moreover have "reread (obj_get (object_of_config ?c') k) = obj_get (object_of_config ?c') k"
    by (rule reread_object_of_config [of _ t now]) (simp_all add: assms(2))
  ultimately show ?thesis by (simp add: property_def)
qed

theorem save_then_load_witness:
  "property
     (loadProjectConfig
        (snd (saveProjectConfig [''w''] ''p''
           (VObj (object_of_config
              \<lparr> pc_id = ''proj_1a2b3c4d'', pc_name = ''P'', pc_slug = ''p'', pc_description = None,
                pc_guidelines = Some ''g'', pc_createdAt = Finite 5, pc_updatedAt = Finite 5,
                pc_enabledSourceSlugs = Some [''s''] \<rparr>)) 9 (Dir [])))
        [''w''] ''p'')
     ''updatedAt''
   = VNum (Finite 9)"
proof -
  let ?c = "\<lparr> pc_id = ''proj_1a2b3c4d'', pc_name = ''P'', pc_slug = ''p'', pc_description = None,
          pc_guidelines = Some ''g'', pc_createdAt = Finite 5, pc_updatedAt = Finite 5,
          pc_enabledSourceSlugs = Some [''s''] \<rparr>"
  have s: "fst (saveProjectConfig [''w''] ''p'' (VObj (object_of_config ?c)) 9 (Dir [])) = Inr ()"
    by code_simp
  have c: "pc_createdAt ?c = Finite 5" by simp
  have "property (VObj (object_of_config (?c \<lparr> pc_updatedAt := Finite 9 \<rparr>))) ''updatedAt''
      = VNum (Finite 9)"
    by code_simp
  with save_then_load [OF s c, of "''updatedAt''"] show ?thesis by simp
qed


section \<open>Saving and updating\<close>

lemma saveProjectConfig_cases:
  obtains (mkdir_failed) e where "\<not> existsSync fs (getProjectPath root slug)"
      "mkdir_p (fst (getProjectPath root slug)) fs = Inl e"
      "saveProjectConfig root slug c now fs = (Inl e, fs)"
  | (write_failed) fs1 e where
      "fs1 = fs \<and> existsSync fs (getProjectPath root slug)
       \<or> \<not> existsSync fs (getProjectPath root slug)
         \<and> mkdir_p (fst (getProjectPath root slug)) fs = Inr fs1"
      "write_at (fst (getProjectPath root slug) @ [''config.json''])
         (JSON_stringify (storageConfig c now)) fs1 = Inl e"
      "saveProjectConfig root slug c now fs = (Inl e, fs1)"
  | (saved) fs1 fs2 where
      "fs1 = fs \<and> existsSync fs (getProjectPath root slug)
       \<or> \<not> existsSync fs (getProjectPath root slug)
         \<and> mkdir_p (fst (getProjectPath root slug)) fs = Inr fs1"
      "write_at (fst (getProjectPath root slug) @ [''config.json''])
         (JSON_stringify (storageConfig c now)) fs1 = Inr fs2"
      "saveProjectConfig root slug c now fs = (Inr (), fs2)"
proof -
  let ?P = "getProjectPath root slug"
  let ?t = "JSON_stringify (storageConfig c now)"
  have step: thesis
    if "fs1 = fs \<and> existsSync fs ?P \<or> \<not> existsSync fs ?P \<and> mkdir_p (fst ?P) fs = Inr fs1" for fs1
  proof (cases "write_at (fst ?P @ [''config.json'']) ?t fs1")
    case (Inl e)
    have "saveProjectConfig root slug c now fs = (Inl e, fs1)"
      using that Inl
      by (auto simp: saveProjectConfig_def Let_def project_files writeFileSync_plain mkdirSync_def)
    with that Inl show thesis by (rule write_failed)
  next
    case (Inr fs2)
    have "saveProjectConfig root slug c now fs = (Inr (), fs2)"
      using that Inr
      by (auto simp: saveProjectConfig_def Let_def project_files writeFileSync_plain mkdirSync_def)
    with that Inr show thesis by (rule saved)
  qed
  show thesis
  proof (cases "existsSync fs ?P")
    case True
    then show thesis by (intro step [of fs]) simp
  next
    case False
    show thesis
    proof (cases "mkdir_p (fst ?P) fs")
      case (Inl e)
      have "saveProjectConfig root slug c now fs = (Inl e, fs)"
        using False Inl by (simp add: saveProjectConfig_def Let_def mkdirSync_def)
      with False Inl show thesis by (rule mkdir_failed)
    next
      case (Inr fs1)
      with False show thesis by (intro step [of fs1]) simp
    qed
  qed
qed

lemma saveProjectConfig_keeps_dir:
  assumes "is_dir (lookup fs q)"
  shows "is_dir (lookup (snd (saveProjectConfig root slug c now fs)) q)"
proof (cases rule: saveProjectConfig_cases [of fs root slug c now])
  case (mkdir_failed e)
  with assms show ?thesis by simp
next
  case (write_failed fs1 e)
  then have "is_dir (lookup fs1 q)"
    using assms by (auto intro: mkdir_p_keeps_dir)
  with write_failed show ?thesis by simp
next
  case (saved fs1 fs2)
  then have "is_dir (lookup fs1 q)"
    using assms by (auto intro: mkdir_p_keeps_dir)
  with saved write_at_keeps_dir show ?thesis by simp
qed

lemma saveProjectConfig_apart:
  assumes "fst (saveProjectConfig root slug c now fs) = Inr ()"
    and "\<not> prefix q (fst (getProjectPath root slug) @ [''config.json''])"
    and "\<not> prefix (fst (getProjectPath root slug) @ [''config.json'']) q"
  shows "lookup (snd (saveProjectConfig root slug c now fs)) q = lookup fs q"
proof (cases rule: saveProjectConfig_cases [of fs root slug c now])
  case (mkdir_failed e)
  with assms show ?thesis by simp
next
  case (write_failed fs1 e)
  with assms show ?thesis by simp
next
  case (saved fs1 fs2)
  have "\<not> prefix q (fst (getProjectPath root slug))"
    using assms(2) by (meson prefix_order.trans prefixI)
  then have "lookup fs1 q = lookup fs q"
    using saved(1) by (auto simp: mkdir_p_apart)
  moreover have "lookup fs2 q = lookup fs1 q"
    using saved(2) assms(3) assms(2) by (rule write_at_apart)
  ultimately show ?thesis using saved(3) by simp
qed

lemma loadProjectConfig_truthy:
  assumes "truthy (loadProjectConfig fs root slug)"
  obtains body where
    "lookup fs (fst (getProjectPath root slug) @ [''config.json'']) = Some (File body)"
  using assms
  by (auto simp: loadProjectConfig_def Let_def project_files existsSync_plain readFileSync_plain
      split: if_splits option.splits node.splits sum.splits)

lemma plain_loadProjectConfig: "plain (loadProjectConfig fs root slug)"
  by (auto simp: loadProjectConfig_def Let_def JSON_parse_def plain_of_json
      split: sum.splits option.splits)

lemma saveProjectConfig_over_file:
  assumes "lookup fs (fst (getProjectPath root slug) @ [''config.json'']) = Some (File body)"
  shows "fst (saveProjectConfig root slug c now fs) = Inr ()"
proof -
  have "lookup fs (fst (getProjectPath root slug) @ [''config.json'']) \<noteq> None" using assms by simp
  then have d: "is_dir (lookup fs (fst (getProjectPath root slug)))"
    by (rule lookup_prefix_dir) simp
  then have "existsSync fs (getProjectPath root slug)"
    by (auto simp: existsSync_def resolve_def is_dir_conv)
  then show ?thesis using assms d
    by (auto simp: saveProjectConfig_def Let_def project_files writeFileSync_plain write_at_def
        is_dir_conv split: node.splits)
qed


lemma updateProject_cases:
  assumes "truthy (loadProjectConfig fs root slug)"
  obtains (no_guidelines) "obj_get u ''guidelines'' = VUndefined"
      "updateProject root slug u now now_save fs =
         (Inr (VObj (merge_updates (loadProjectConfig fs root slug) u now)),
          snd (saveProjectConfig root slug
                 (VObj (merge_updates (loadProjectConfig fs root slug) u now)) now_save fs))"
  | (written) g fs2 where "obj_get u ''guidelines'' = VStr g" "g \<noteq> []"
      "write_at (fst (getProjectPath root slug) @ [''guidelines.md'']) g
         (snd (saveProjectConfig root slug
                 (VObj (merge_updates (loadProjectConfig fs root slug) u now)) now_save fs))
       = Inr fs2"
      "updateProject root slug u now now_save fs =
         (Inr (VObj (merge_updates (loadProjectConfig fs root slug) u now)), fs2)"
  | (removed) fs2 where "obj_get u ''guidelines'' \<noteq> VUndefined"
      "\<not> truthy (obj_get u ''guidelines'')"
      "unlink_at (fst (getProjectPath root slug) @ [''guidelines.md''])
         (snd (saveProjectConfig root slug
                 (VObj (merge_updates (loadProjectConfig fs root slug) u now)) now_save fs))
       = Inr fs2"
      "updateProject root slug u now now_save fs =
         (Inr (VObj (merge_updates (loadProjectConfig fs root slug) u now)), fs2)"
  | (absent) "obj_get u ''guidelines'' \<noteq> VUndefined"
      "\<not> truthy (obj_get u ''guidelines'')"
      "lookup (snd (saveProjectConfig root slug
                 (VObj (merge_updates (loadProjectConfig fs root slug) u now)) now_save fs))
         (fst (getProjectPath root slug) @ [''guidelines.md'']) = None"
      "updateProject root slug u now now_save fs =
         (Inr (VObj (merge_updates (loadProjectConfig fs root slug) u now)),
          snd (saveProjectConfig root slug
                 (VObj (merge_updates (loadProjectConfig fs root slug) u now)) now_save fs))"
  | (threw) e where
      "updateProject root slug u now now_save fs =
         (Inl e, snd (saveProjectConfig root slug
                 (VObj (merge_updates (loadProjectConfig fs root slug) u now)) now_save fs))"
      "obj_get u ''guidelines'' \<noteq> VUndefined"
      "(\<exists>g. obj_get u ''guidelines'' = VStr g) \<or> \<not> truthy (obj_get u ''guidelines'')
       \<Longrightarrow> (\<forall>t. lookup fs (fst (getProjectPath root slug) @ [''guidelines.md'']) \<noteq> Some (File t))
           \<and> lookup fs (fst (getProjectPath root slug) @ [''guidelines.md'']) \<noteq> None"
proof -
  let ?upd = "VObj (merge_updates (loadProjectConfig fs root slug) u now)"
  let ?gp = "fst (getProjectPath root slug) @ [''guidelines.md'']"
  let ?g = "obj_get u ''guidelines''"
  define fs1 where "fs1 = snd (saveProjectConfig root slug ?upd now_save fs)"
  obtain body where
    cf: "lookup fs (fst (getProjectPath root slug) @ [''config.json'']) = Some (File body)"
    using assms by (rule loadProjectConfig_truthy)
  have ok: "fst (saveProjectConfig root slug ?upd now_save fs) = Inr ()"
    using cf by (rule saveProjectConfig_over_file)
  then have sv: "saveProjectConfig root slug ?upd now_save fs = (Inr (), fs1)"
    unfolding fs1_def by (metis prod.collapse)
  have g1: "lookup fs1 ?gp = lookup fs ?gp"
    unfolding fs1_def using ok by (rule saveProjectConfig_apart) simp_all
  have d: "is_dir (lookup fs1 (fst (getProjectPath root slug)))"
  proof -
    have "lookup fs (fst (getProjectPath root slug) @ [''config.json'']) \<noteq> None" using cf by simp
    then have "is_dir (lookup fs (fst (getProjectPath root slug)))"
      by (rule lookup_prefix_dir) simp
    then show ?thesis unfolding fs1_def by (rule saveProjectConfig_keeps_dir)
  qed
  show ?thesis
  proof (cases "?g = VUndefined")
    case True
    have "updateProject root slug u now now_save fs = (Inr ?upd, fs1)"
      using assms sv True by (simp add: updateProject_def Let_def)
    with True show ?thesis unfolding fs1_def by (rule no_guidelines)
  next
    case given: False
    show ?thesis
    proof (cases "truthy ?g")
      case True
      show ?thesis
      proof (cases "write_data (fst (getProjectPath root slug) @ [''guidelines.md''], False) ?g fs1")
        case (Inr fs2)
        then obtain g where g: "?g = VStr g" "write_at ?gp g fs1 = Inr fs2"
          by (auto simp: write_data_def writeFileSync_plain split: jsvalue.splits)
        have ne: "g \<noteq> []" using True g by simp
        have "updateProject root slug u now now_save fs = (Inr ?upd, fs2)"
          using assms sv given True Inr
          by (simp add: updateProject_def Let_def project_files)
        with g(1) ne g(2) show ?thesis unfolding fs1_def by (rule written)
      next
        case (Inl e)
        have n: "(\<forall>t. lookup fs ?gp \<noteq> Some (File t)) \<and> lookup fs ?gp \<noteq> None"
          if "(\<exists>g. ?g = VStr g) \<or> \<not> truthy ?g"
        proof -
          from that True obtain g where g: "?g = VStr g" by blast
          then have "write_at ?gp g fs1 = Inl e"
            using Inl by (simp add: write_data_def writeFileSync_plain)
          then have "(\<forall>t. lookup fs1 ?gp \<noteq> Some (File t)) \<and> lookup fs1 ?gp \<noteq> None"
            using d by (auto simp: write_at_def is_dir_conv split: if_splits option.splits node.splits)
          then show ?thesis using g1 by simp
        qed
        have "updateProject root slug u now now_save fs = (Inl e, fs1)"
          using assms sv given True Inl
          by (simp add: updateProject_def Let_def project_files)
        then show ?thesis using given n unfolding fs1_def by (intro threw [of e]) simp_all
      qed
    next
      case False
      show ?thesis
      proof (cases "lookup fs1 ?gp")
        case None
        have "updateProject root slug u now now_save fs = (Inr ?upd, fs1)"
          using assms sv given False None
          by (simp add: updateProject_def Let_def project_files existsSync_plain)
        then show ?thesis using given False None unfolding fs1_def by (intro absent) simp_all
      next
        case (Some n)
        show ?thesis
        proof (cases "unlink_at ?gp fs1")
          case (Inr fs2)
          have "updateProject root slug u now now_save fs = (Inr ?upd, fs2)"
            using assms sv given False Some Inr
            by (simp add: updateProject_def Let_def project_files existsSync_plain
                unlinkSync_plain)
          then show ?thesis using given False Inr
            unfolding fs1_def by (intro removed [of fs2]) simp_all
        next
          case (Inl e)
          then have "(\<forall>t. lookup fs1 ?gp \<noteq> Some (File t)) \<and> lookup fs1 ?gp \<noteq> None"
            using Some by (auto simp: unlink_at_def split: if_splits option.splits node.splits)
          then have n: "(\<forall>t. lookup fs ?gp \<noteq> Some (File t)) \<and> lookup fs ?gp \<noteq> None"
            using g1 by simp
          have "updateProject root slug u now now_save fs = (Inl e, fs1)"
            using assms sv given False Some Inl
            by (simp add: updateProject_def Let_def project_files existsSync_plain
                unlinkSync_plain)
          then show ?thesis using given n
            unfolding fs1_def by (intro threw [of e]) simp_all
        qed
      qed
    qed
  qed
qed


text \<open>The object that \<open>updateProject\<close> builds, and what is read back after it was saved.\<close>

lemma obj_get_assign: "obj_get (assign k v obj) k' = (if k' = k then v else obj_get obj k')"
  by (simp add: obj_get_def assign_def update_conv')

lemma distinct_assign: "distinct (map fst obj) \<Longrightarrow> distinct (map fst (assign k v obj))"
  by (simp add: assign_def distinct_update)

lemma obj_get_define_all:
  "distinct (map fst ps) \<Longrightarrow>
   obj_get (define_all obj ps) k = (if k \<in> fst ` set ps then obj_get ps k else obj_get obj k)"
proof -
  assume d: "distinct (map fst ps)"
  have "(k \<in> fst ` set ps) = (map_of ps k \<noteq> None)" by (simp add: map_of_eq_None_iff)
  then show ?thesis
    by (cases "map_of ps k") (simp_all add: obj_get_def map_of_define_all [OF d] map_add_def)
qed

lemma distinct_merge_updates: "distinct (map fst (merge_updates c u now))"
proof -
  have "distinct (map fst (define_all [] (own_props c)))"
    by (rule distinct_define_all) simp
  then have "distinct (map fst (define_all (define_all [] (own_props c)) u))"
    by (rule distinct_define_all)
  then show ?thesis by (simp add: merge_updates_def spread_def distinct_assign)
qed

lemma obj_get_merge_updates:
  assumes "plain c" "distinct (map fst u)"
  shows "obj_get (merge_updates c u now) k
         = (if k = ''updatedAt'' then VNum (Finite now)
            else if k \<in> fst ` set u then obj_get u k else property c k)"
proof -
  have "define_all [] (own_props c) = own_props c"
    using define_all_distinct [of "[]" "own_props c"] own_props_plain(1) [OF assms(1)] by simp
  then show ?thesis using assms(2)
    by (simp add: merge_updates_def spread_def obj_get_assign obj_get_define_all property_def)
qed

lemma reread_property: "plain c \<Longrightarrow> reread (property c k) = property c k"
proof -
  assume "plain c"
  then have "plain_members (own_props c)" by (rule own_props_plain)
  then have "property c k = VUndefined \<or> plain (property c k)"
    by (auto simp: property_def obj_get_def plain_members_iff split: option.splits
        dest!: map_of_SomeD)
  then show ?thesis by (auto simp: reread_plain) (simp add: reread_def)
qed

lemma property_saved:
  assumes "distinct (map fst obj)"
  shows "property (of_json (to_json (storageConfig (VObj obj) now))) k
         = (if k = ''updatedAt'' then VNum (Finite now) else reread (obj_get obj k))"
proof -
  have "define_all [] obj = obj"
    using define_all_distinct [of "[]" obj] assms by simp
  then have s: "storageConfig (VObj obj) now = VObj (assign ''updatedAt'' (VNum (Finite now)) obj)"
    by (simp add: storageConfig_def spread_def)
  have "property (of_json (to_json (VObj (assign ''updatedAt'' (VNum (Finite now)) obj)))) k
      = reread (obj_get (assign ''updatedAt'' (VNum (Finite now)) obj) k)"
    by (rule property_reread) (rule distinct_assign [OF assms])
  then show ?thesis by (simp add: s obj_get_assign reread_def)
qed

lemma updateProject_persisted:
  assumes "truthy (loadProjectConfig fs root slug)"
    and "fst (updateProject root slug u now now_save fs) = Inr r"
  shows "r = VObj (merge_updates (loadProjectConfig fs root slug) u now)
         \<and> loadProjectConfig (snd (updateProject root slug u now now_save fs)) root slug
             = of_json (to_json (storageConfig
                 (VObj (merge_updates (loadProjectConfig fs root slug) u now)) now_save))"
proof -
  let ?upd = "VObj (merge_updates (loadProjectConfig fs root slug) u now)"
  let ?cp = "fst (getProjectPath root slug) @ [''config.json'']"
  let ?gp = "fst (getProjectPath root slug) @ [''guidelines.md'']"
  let ?fs1 = "snd (saveProjectConfig root slug ?upd now_save fs)"
  let ?body = "JSON_stringify (storageConfig ?upd now_save)"
  obtain body where "lookup fs ?cp = Some (File body)"
    using assms(1) by (rule loadProjectConfig_truthy)
  then have "fst (saveProjectConfig root slug ?upd now_save fs) = Inr ()"
    by (rule saveProjectConfig_over_file)
  from saveProjectConfig_written [OF this]
  have w: "lookup ?fs1 ?cp = Some (File ?body)" .
  have ap: "\<not> prefix ?gp ?cp" "\<not> prefix ?cp ?gp" by simp_all
  have loaded: "lookup fs' ?cp = Some (File ?body) \<Longrightarrow> loadProjectConfig fs' root slug
      = of_json (to_json (storageConfig ?upd now_save))" for fs'
    by (rule loadProjectConfig_file)
  from assms(1) show ?thesis
  proof (cases rule: updateProject_cases [where u = u and now = now and now_save = now_save])
    case no_guidelines
    with assms(2) w loaded show ?thesis by simp
  next
    case (written g fs2)
    from write_at_apart [OF written(3) ap] w have "lookup fs2 ?cp = Some (File ?body)" by simp
    with written(4) assms(2) loaded show ?thesis by simp
  next
    case (removed fs2)
    from unlink_at_apart [OF removed(3) ap] w have "lookup fs2 ?cp = Some (File ?body)" by simp
    with removed(4) assms(2) loaded show ?thesis by simp
  next
    case absent
    with assms(2) w loaded show ?thesis by simp
  next
    case (threw e)
    with assms(2) show ?thesis by simp
  qed
qed


text \<open>A disk with one project, used in the examples below.\<close>

lemma example_load:
  "loadProjectConfig
     (Dir [(''w'', Dir [(''projects'', Dir [(''p'', Dir ((''config.json'',
        File (JSON_stringify (VObj (object_of_config
          \<lparr> pc_id = ''proj_1a2b3c4d'', pc_name = ''P'', pc_slug = ''p'', pc_description = None,
            pc_guidelines = g, pc_createdAt = Finite 5, pc_updatedAt = Finite 5,
            pc_enabledSourceSlugs = None \<rparr>)))) # es))])])])
     [''w''] ''p''
   = VObj ([(''id'', VStr ''proj_1a2b3c4d''), (''name'', VStr ''P''), (''slug'', VStr ''p'')]
           @ (case g of None \<Rightarrow> [] | Some t \<Rightarrow> [(''guidelines'', VStr t)])
           @ [(''createdAt'', VNum (Finite 5)), (''updatedAt'', VNum (Finite 5))])"
proof -
  let ?c = "\<lparr> pc_id = ''proj_1a2b3c4d'', pc_name = ''P'', pc_slug = ''p'', pc_description = None,
            pc_guidelines = g, pc_createdAt = Finite 5, pc_updatedAt = Finite 5,
            pc_enabledSourceSlugs = None \<rparr>"
  let ?fs = "Dir [(''w'', Dir [(''projects'', Dir [(''p'', Dir ((''config.json'',
        File (JSON_stringify (VObj (object_of_config ?c)))) # es))])])]"
  have p: "fst (getProjectPath [''w''] ''p'') = [''w'', ''projects'', ''p'']" by code_simp
  have "lookup ?fs (fst (getProjectPath [''w''] ''p'') @ [''config.json''])
      = Some (File (JSON_stringify (VObj (object_of_config ?c))))"
    unfolding p by simp
  then have "loadProjectConfig ?fs [''w''] ''p'' = of_json (to_json (VObj (object_of_config ?c)))"
    by (rule loadProjectConfig_file)
  then show ?thesis
    by (cases g) (simp_all add: object_of_config_def optional_def define_all_def assign_def)
qed

text \<open>
  Claim C9 says that, for every updates argument, \<open>updateProject\<close> merges only the
  recognized fields, so that the returned and the persisted configuration keep \<open>id\<close>,
  \<open>slug\<close> and \<open>createdAt\<close>. The object literal spreads every own key of
  \<^verbatim>\<open>updates\<close>; the parameter type that names four fields is erased at run time. With
  the key \<open>id\<close> in the updates, the returned and the persisted configuration have the
  new \<open>id\<close>.
\<close>

theorem updateProject_overwrites_id:
  "property
     (loadProjectConfig
        (Dir [(''w'', Dir [(''projects'', Dir [(''p'', Dir [(''config.json'',
           File (JSON_stringify (VObj (object_of_config
             \<lparr> pc_id = ''proj_1a2b3c4d'', pc_name = ''P'', pc_slug = ''p'', pc_description = None,
               pc_guidelines = None, pc_createdAt = Finite 5, pc_updatedAt = Finite 5,
               pc_enabledSourceSlugs = None \<rparr>))))])])])])
        [''w''] ''p'') ''id'' = VStr ''proj_1a2b3c4d''
   \<and> (\<exists>r. fst (updateProject [''w''] ''p'' [(''id'', VStr ''proj_other'')] 7 8
          (Dir [(''w'', Dir [(''projects'', Dir [(''p'', Dir [(''config.json'',
             File (JSON_stringify (VObj (object_of_config
               \<lparr> pc_id = ''proj_1a2b3c4d'', pc_name = ''P'', pc_slug = ''p'',
                 pc_description = None, pc_guidelines = None, pc_createdAt = Finite 5,
                 pc_updatedAt = Finite 5, pc_enabledSourceSlugs = None \<rparr>))))])])])])) = Inr r
        \<and> property r ''id'' = VStr ''proj_other'')
   \<and> property
        (loadProjectConfig
           (snd (updateProject [''w''] ''p'' [(''id'', VStr ''proj_other'')] 7 8
              (Dir [(''w'', Dir [(''projects'', Dir [(''p'', Dir [(''config.json'',
                 File (JSON_stringify (VObj (object_of_config
                   \<lparr> pc_id = ''proj_1a2b3c4d'', pc_name = ''P'', pc_slug = ''p'',
                     pc_description = None, pc_guidelines = None, pc_createdAt = Finite 5,
                     pc_updatedAt = Finite 5, pc_enabledSourceSlugs = None \<rparr>))))])])])])))
           [''w''] ''p'') ''id'' = VStr ''proj_other''"
proof -
  let ?c = "\<lparr> pc_id = ''proj_1a2b3c4d'', pc_name = ''P'', pc_slug = ''p'', pc_description = None,
               pc_guidelines = None, pc_createdAt = Finite 5, pc_updatedAt = Finite 5,
               pc_enabledSourceSlugs = None \<rparr>"
  let ?fs = "Dir [(''w'', Dir [(''projects'', Dir [(''p'', Dir [(''config.json'',
           File (JSON_stringify (VObj (object_of_config ?c))))])])])]"
  let ?u = "[(''id'', VStr ''proj_other'')]"
  let ?l = "loadProjectConfig ?fs [''w''] ''p''"
  have l: "?l = VObj [(''id'', VStr ''proj_1a2b3c4d''), (''name'', VStr ''P''), (''slug'', VStr ''p''),
      (''createdAt'', VNum (Finite 5)), (''updatedAt'', VNum (Finite 5))]"
    using example_load [of None "[]"] by simp
  then have t: "truthy ?l" by simp
  have a: "property ?l ''id'' = VStr ''proj_1a2b3c4d''"
    unfolding l by (simp add: property_def obj_get_def)
  obtain r where r: "fst (updateProject [''w''] ''p'' ?u 7 8 ?fs) = Inr r"
    using t
    by (cases rule: updateProject_cases [where u = ?u and now = 7 and now_save = 8])
      (simp_all add: obj_get_def)
  from updateProject_persisted [OF t r]
  have r': "r = VObj (merge_updates ?l ?u 7)"
    and p: "loadProjectConfig (snd (updateProject [''w''] ''p'' ?u 7 8 ?fs)) [''w''] ''p''
      = of_json (to_json (storageConfig (VObj (merge_updates ?l ?u 7)) 8))"
    by simp_all
  have m: "obj_get (merge_updates ?l ?u 7) ''id'' = VStr ''proj_other''"
    using obj_get_merge_updates [OF plain_loadProjectConfig, of ?u ?fs "[''w'']" "''p''" 7 "''id''"]
    by (simp add: obj_get_def)
  have b: "property r ''id'' = VStr ''proj_other''"
    using m by (simp add: r' property_def)
  have c: "property (loadProjectConfig (snd (updateProject [''w''] ''p'' ?u 7 8 ?fs)) [''w''] ''p'')
      ''id'' = VStr ''proj_other''"
    unfolding p using property_saved [OF distinct_merge_updates, of ?l ?u 7 8 "''id''"] m
    by (simp add: reread_def)
  from a r b c show ?thesis by blast
qed

text \<open>
  Claim C9, amended: for every existing project and every updates object,
  \<open>updateProject\<close> copies every key of the updates over the loaded configuration and
  sets \<open>updatedAt\<close>. In the returned configuration a key of the updates has the value
  given (also when that is \<^verbatim>\<open>undefined\<close>), \<open>updatedAt\<close> is the time read by
  \<open>updateProject\<close>, and every other key has its value in the loaded configuration. The
  persisted configuration is the same after serialisation (\<open>reread\<close>: a key given as
  \<^verbatim>\<open>undefined\<close> is erased), with the time read by \<open>saveProjectConfig\<close> as
  \<open>updatedAt\<close>. So when the updates have none of the keys \<open>id\<close>, \<open>slug\<close> and
  \<open>createdAt\<close>, as when they only have recognized fields, the returned and the persisted
  configuration keep these three. The updates are an object: no key occurs twice.
\<close>

theorem updateProject_merges_given_keys:
  assumes "truthy (loadProjectConfig fs root slug)"
    and "distinct (map fst u)"
    and "fst (updateProject root slug u now now_save fs) = Inr r"
  shows "(\<forall>k. property r k
            = (if k = ''updatedAt'' then VNum (Finite now)
               else if k \<in> fst ` set u then obj_get u k
               else property (loadProjectConfig fs root slug) k))
       \<and> (\<forall>k. property
                 (loadProjectConfig (snd (updateProject root slug u now now_save fs)) root slug) k
            = (if k = ''updatedAt'' then VNum (Finite now_save)
               else if k \<in> fst ` set u then reread (obj_get u k)
               else property (loadProjectConfig fs root slug) k))
       \<and> (''id'' \<notin> fst ` set u \<and> ''slug'' \<notin> fst ` set u \<and> ''createdAt'' \<notin> fst ` set u
          \<longrightarrow> (\<forall>k\<in>{''id'', ''slug'', ''createdAt''}.
                 property r k = property (loadProjectConfig fs root slug) k
               \<and> property
                   (loadProjectConfig (snd (updateProject root slug u now now_save fs)) root slug) k
                 = property (loadProjectConfig fs root slug) k))"
proof -
  let ?c = "loadProjectConfig fs root slug"
  let ?p = "loadProjectConfig (snd (updateProject root slug u now now_save fs)) root slug"
  have pl: "plain ?c" by (rule plain_loadProjectConfig)
  from updateProject_persisted [OF assms(1) assms(3)]
  have r: "r = VObj (merge_updates ?c u now)"
    and p: "?p = of_json (to_json (storageConfig (VObj (merge_updates ?c u now)) now_save))"
    by simp_all
  have ret: "property r k
      = (if k = ''updatedAt'' then VNum (Finite now)
         else if k \<in> fst ` set u then obj_get u k else property ?c k)" for k
    using obj_get_merge_updates [OF pl assms(2), of now k] by (simp add: r property_def)
  have per: "property ?p k
      = (if k = ''updatedAt'' then VNum (Finite now_save)
         else if k \<in> fst ` set u then reread (obj_get u k) else property ?c k)" for k
    unfolding p
    using property_saved [OF distinct_merge_updates, of ?c u now now_save k]
      obj_get_merge_updates [OF pl assms(2), of now k] reread_property [OF pl, of k]
    by simp
  show ?thesis
  proof (intro conjI allI impI ballI)
    fix k
    show "property r k
        = (if k = ''updatedAt'' then VNum (Finite now)
           else if k \<in> fst ` set u then obj_get u k else property ?c k)"
      by (rule ret)
    show "property ?p k
        = (if k = ''updatedAt'' then VNum (Finite now_save)
           else if k \<in> fst ` set u then reread (obj_get u k) else property ?c k)"
      by (rule per)
  next
    fix k
    assume n: "''id'' \<notin> fst ` set u \<and> ''slug'' \<notin> fst ` set u \<and> ''createdAt'' \<notin> fst ` set u"
      and k: "k \<in> {''id'', ''slug'', ''createdAt''}"
    have "k = ''id'' \<or> k = ''slug'' \<or> k = ''createdAt''" using k by simp
    then have "k \<notin> fst ` set u" using n by (elim disjE) (simp_all only: not_False_eq_True)
    moreover have "k \<noteq> ''updatedAt''" using k by auto
    ultimately show "property r k = property ?c k" "property ?p k = property ?c k"
      using ret [of k] per [of k] by simp_all
  qed
qed

theorem updateProject_merges_given_keys_witness:
  "\<exists>r. fst (updateProject [''w''] ''p'' [(''name'', VStr ''Q'')] 7 8
          (Dir [(''w'', Dir [(''projects'', Dir [(''p'', Dir [(''config.json'',
             File (JSON_stringify (VObj (object_of_config
               \<lparr> pc_id = ''proj_1a2b3c4d'', pc_name = ''P'', pc_slug = ''p'',
                 pc_description = None, pc_guidelines = None, pc_createdAt = Finite 5,
                 pc_updatedAt = Finite 5, pc_enabledSourceSlugs = None \<rparr>))))])])])])) = Inr r
      \<and> property r ''id'' = VStr ''proj_1a2b3c4d'' \<and> property r ''name'' = VStr ''Q''
      \<and> property r ''updatedAt'' = VNum (Finite 7)
      \<and> property
           (loadProjectConfig
              (snd (updateProject [''w''] ''p'' [(''name'', VStr ''Q'')] 7 8
                 (Dir [(''w'', Dir [(''projects'', Dir [(''p'', Dir [(''config.json'',
                    File (JSON_stringify (VObj (object_of_config
                      \<lparr> pc_id = ''proj_1a2b3c4d'', pc_name = ''P'', pc_slug = ''p'',
                        pc_description = None, pc_guidelines = None, pc_createdAt = Finite 5,
                        pc_updatedAt = Finite 5, pc_enabledSourceSlugs = None \<rparr>))))])])])])))
              [''w''] ''p'') ''updatedAt'' = VNum (Finite 8)"
proof -
  let ?c = "\<lparr> pc_id = ''proj_1a2b3c4d'', pc_name = ''P'', pc_slug = ''p'', pc_description = None,
               pc_guidelines = None, pc_createdAt = Finite 5, pc_updatedAt = Finite 5,
               pc_enabledSourceSlugs = None \<rparr>"
  let ?fs = "Dir [(''w'', Dir [(''projects'', Dir [(''p'', Dir [(''config.json'',
           File (JSON_stringify (VObj (object_of_config ?c))))])])])]"
  let ?u = "[(''name'', VStr ''Q'')]"
  let ?l = "loadProjectConfig ?fs [''w''] ''p''"
  have l: "?l = VObj [(''id'', VStr ''proj_1a2b3c4d''), (''name'', VStr ''P''), (''slug'', VStr ''p''),
      (''createdAt'', VNum (Finite 5)), (''updatedAt'', VNum (Finite 5))]"
    using example_load [of None "[]"] by simp
  then have t: "truthy ?l" by simp
  have a: "property ?l ''id'' = VStr ''proj_1a2b3c4d''"
    unfolding l by (simp add: property_def obj_get_def)
  have d: "distinct (map fst ?u)" by simp
  obtain r where r: "fst (updateProject [''w''] ''p'' ?u 7 8 ?fs) = Inr r"
    using t
    by (cases rule: updateProject_cases [where u = ?u and now = 7 and now_save = 8])
      (simp_all add: obj_get_def)
  from updateProject_merges_given_keys [OF t d r] a
  have "property r ''id'' = VStr ''proj_1a2b3c4d'' \<and> property r ''name'' = VStr ''Q''
      \<and> property r ''updatedAt'' = VNum (Finite 7)
      \<and> property (loadProjectConfig (snd (updateProject [''w''] ''p'' ?u 7 8 ?fs)) [''w''] ''p'')
          ''updatedAt'' = VNum (Finite 8)"
    by (simp add: obj_get_def)
  with r show ?thesis by blast
qed





section \<open>Creating a project\<close>

lemma generateUniqueProjectSlug_free:
  "\<not> existsSync fs (join dir (generateUniqueProjectSlug fs name dir))"
  using probe_free [of fs dir "generateSlug name" 2]
  by (simp add: generateUniqueProjectSlug_def Let_def)

lemma generateUniqueProjectSlug_simple:
  "simple_segment (generateUniqueProjectSlug fs name dir)"
  by (simp add: generateUniqueProjectSlug_def Let_def generateSlug_simple candidate_simple)

lemma write_at_new:
  assumes "p \<noteq> []" "is_dir (lookup fs (butlast p))"
    and "lookup fs p = None \<or> (\<exists>t. lookup fs p = Some (File t))"
  shows "write_at p c fs = Inr (put p (File c) fs)"
  using assms by (auto simp: write_at_def is_dir_conv split: option.splits node.splits)

lemma write_at_in:
  assumes "is_dir (lookup fs b)"
    and "lookup fs (b @ [x]) = None \<or> (\<exists>t. lookup fs (b @ [x]) = Some (File t))"
  shows "write_at (b @ [x]) c fs = Inr (put (b @ [x]) (File c) fs)"
  using assms by (intro write_at_new) simp_all

lemma not_prefix_snoc:
  assumes "\<not> prefix p q" "\<not> prefix q p"
  shows "\<not> prefix (p @ [x]) q" "\<not> prefix q (p @ [x])"
proof -
  show "\<not> prefix (p @ [x]) q" using assms(1) by (meson prefix_order.trans prefixI)
  show "\<not> prefix q (p @ [x])" using assms by (auto simp: prefix_snoc)
qed

lemma lookup_put_sibling:
  assumes "is_dir (lookup fs b)" "x \<noteq> y"
  shows "lookup (put (b @ [x]) n fs) (b @ [y]) = lookup fs (b @ [y])"
  using assms(2) by (intro lookup_put_apart) simp_all

lemma lookup_put_parent:
  "is_dir (lookup (put (b @ [x]) n fs) b) = is_dir (lookup fs b)"
  by (rule is_dir_put_above) (simp_all add: strict_prefix_def)

lemma lookup_put_here:
  "is_dir (lookup fs b) \<Longrightarrow> lookup (put (b @ [x]) n fs) (b @ [x]) = Some n"
  using lookup_put_under [of "b @ [x]" fs n "[]"] by simp

lemma lookup_in_empty: "lookup fs b = Some (Dir []) \<Longrightarrow> lookup fs (b @ [x]) = None"
  by (simp add: lookup_snoc)

text \<open>
  In a projects directory that exists, \<open>createProject\<close> returns: the slug it picks is
  free, so every step writes below a directory it has just made. It leaves an empty
  \<^verbatim>\<open>files\<close> directory in the new project folder and touches nothing outside this
  folder.
\<close>

lemma createProject_in_dir:
  assumes pd: "is_dir (lookup fs (fst (getWorkspaceProjectsPath root)))"
  shows "fst (createProject root input now uuid fs)
         = Inr \<lparr> pc_id = ''proj_'' @ take 8 uuid, pc_name = in_name input,
                 pc_slug = generateUniqueProjectSlug fs (in_name input) (getWorkspaceProjectsPath root),
                 pc_description = in_description input, pc_guidelines = in_guidelines input,
                 pc_createdAt = Finite now, pc_updatedAt = Finite now,
                 pc_enabledSourceSlugs = in_enabledSourceSlugs input \<rparr>
       \<and> lookup (snd (createProject root input now uuid fs))
            (fst (getWorkspaceProjectsPath root)
               @ [generateUniqueProjectSlug fs (in_name input) (getWorkspaceProjectsPath root), ''files''])
          = Some (Dir [])
       \<and> is_dir (lookup (snd (createProject root input now uuid fs))
            (fst (getWorkspaceProjectsPath root)
               @ [generateUniqueProjectSlug fs (in_name input) (getWorkspaceProjectsPath root)]))
       \<and> (\<forall>q. \<not> prefix (fst (getWorkspaceProjectsPath root)
               @ [generateUniqueProjectSlug fs (in_name input) (getWorkspaceProjectsPath root)]) q
              \<and> \<not> prefix q (fst (getWorkspaceProjectsPath root)
               @ [generateUniqueProjectSlug fs (in_name input) (getWorkspaceProjectsPath root)]) \<longrightarrow>
              lookup (snd (createProject root input now uuid fs)) q = lookup fs q)"
proof -
  define PDp where "PDp = getWorkspaceProjectsPath root"
  define PD where "PD = fst PDp"
  have PDp: "PDp = (PD, False)"
    using getWorkspaceProjectsPath_plain [of root] by (simp add: PD_def PDp_def prod_eq_iff)
  define slug where "slug = generateUniqueProjectSlug fs (in_name input) PDp"
  define cfg where "cfg = \<lparr> pc_id = ''proj_'' @ take 8 uuid, pc_name = in_name input, pc_slug = slug,
                    pc_description = in_description input, pc_guidelines = in_guidelines input,
                    pc_createdAt = Finite now, pc_updatedAt = Finite now,
                    pc_enabledSourceSlugs = in_enabledSourceSlugs input \<rparr>"
  have pd': "is_dir (lookup fs PD)" using pd by (simp add: PD_def PDp_def)
  have unfold: "createProject root input now uuid fs =
     (case (if \<not> existsSync fs PDp then mkdirSync PDp fs else Inr fs) of
           Inl e \<Rightarrow> (Inl e, fs)
         | Inr fs1 \<Rightarrow>
             (case mkdirSync (join PDp (generateUniqueProjectSlug fs1 (in_name input) PDp)) fs1 of
                   Inl e \<Rightarrow> (Inl e, fs1)
                 | Inr fs2 \<Rightarrow>
                     (case mkdirSync (join (join PDp (generateUniqueProjectSlug fs1 (in_name input) PDp)) ''files'') fs2 of
                        Inl e \<Rightarrow> (Inl e, fs2)
                      | Inr fs3 \<Rightarrow>
                          (case writeFileSync (join (join PDp (generateUniqueProjectSlug fs1 (in_name input) PDp)) ''config.json'')
                                  (JSON_stringify (VObj (object_of_config
                                    \<lparr> pc_id = ''proj_'' @ take 8 uuid, pc_name = in_name input,
                                      pc_slug = generateUniqueProjectSlug fs1 (in_name input) PDp,
                                      pc_description = in_description input, pc_guidelines = in_guidelines input,
                                      pc_createdAt = Finite now, pc_updatedAt = Finite now,
                                      pc_enabledSourceSlugs = in_enabledSourceSlugs input \<rparr>))) fs3 of
                             Inl e \<Rightarrow> (Inl e, fs3)
                           | Inr fs4 \<Rightarrow>
                               if truthy_string (in_guidelines input) then
                                 (case writeFileSync (join (join PDp (generateUniqueProjectSlug fs1 (in_name input) PDp)) ''guidelines.md'')
                                         (the (in_guidelines input)) fs4 of
                                    Inl e \<Rightarrow> (Inl e, fs4)
                                  | Inr fs5 \<Rightarrow> (Inr \<lparr> pc_id = ''proj_'' @ take 8 uuid, pc_name = in_name input,
                                      pc_slug = generateUniqueProjectSlug fs1 (in_name input) PDp,
                                      pc_description = in_description input, pc_guidelines = in_guidelines input,
                                      pc_createdAt = Finite now, pc_updatedAt = Finite now,
                                      pc_enabledSourceSlugs = in_enabledSourceSlugs input \<rparr>, fs5))
                               else (Inr \<lparr> pc_id = ''proj_'' @ take 8 uuid, pc_name = in_name input,
                                      pc_slug = generateUniqueProjectSlug fs1 (in_name input) PDp,
                                      pc_description = in_description input, pc_guidelines = in_guidelines input,
                                      pc_createdAt = Finite now, pc_updatedAt = Finite now,
                                      pc_enabledSourceSlugs = in_enabledSourceSlugs input \<rparr>, fs4)))))"
    by (simp only: createProject_def Let_def PDp_def)
  have goal: "fst (createProject root input now uuid fs) = Inr cfg
       \<and> lookup (snd (createProject root input now uuid fs)) (PD @ [slug, ''files'']) = Some (Dir [])
       \<and> is_dir (lookup (snd (createProject root input now uuid fs)) (PD @ [slug]))
       \<and> (\<forall>q. \<not> prefix (PD @ [slug]) q \<and> \<not> prefix q (PD @ [slug]) \<longrightarrow>
              lookup (snd (createProject root input now uuid fs)) q = lookup fs q)"
  proof -

  let ?P = "PD @ [slug]"
  let ?text = "JSON_stringify (VObj (object_of_config cfg))"
  have clean: "is_clean PD" by (simp add: PD_def PDp_def is_clean_paths)
  have ss: "simple_segment slug" by (simp add: slug_def generateUniqueProjectSlug_simple)
  have jP: "join PDp slug = (?P, False)" using join_simple [OF ss, of PDp] clean by (simp add: PD_def)
  have cP: "is_clean ?P" using is_clean_join [of PDp slug] jP by simp
  have jf: "join (?P, False) ''files'' = (?P @ [''files''], False)"
    "join (?P, False) ''config.json'' = (?P @ [''config.json''], False)"
    "join (?P, False) ''guidelines.md'' = (?P @ [''guidelines.md''], False)"
    using cP by (simp_all add: join_simple simple_segments)
  obtain es where es: "lookup fs PD = Some (Dir es)"
    using pd' by (cases "lookup fs PD" rule: is_dir.cases) auto
  have "\<not> existsSync fs (?P, False)"
    using generateUniqueProjectSlug_free [of fs PDp "in_name input"] jP
    unfolding slug_def by simp
  then have free: "map_of es slug = None" using es by (simp add: existsSync_plain lookup_snoc)
  define fs2 where "fs2 = put ?P (Dir []) fs"
  define fs3 where "fs3 = put (?P @ [''files'']) (Dir []) fs2"
  define fs4 where "fs4 = put (?P @ [''config.json'']) (File ?text) fs3"
  have m2: "mkdir_p ?P fs = Inr fs2"
    unfolding fs2_def using es free by (rule mkdir_p_new)
  have l2: "lookup fs2 ?P = Some (Dir [])"
    unfolding fs2_def using pd' by (rule lookup_put_here)
  have m3: "mkdir_p (?P @ [''files'']) fs2 = Inr fs3"
    unfolding fs3_def using l2 by (rule mkdir_p_new) simp
  have d2: "is_dir (lookup fs2 ?P)" using l2 by simp
  have d3: "is_dir (lookup fs3 ?P)"
    unfolding fs3_def using d2 lookup_put_parent [of ?P "''files''" "Dir []" fs2] by simp
  have f3: "lookup fs3 (?P @ [''files'']) = Some (Dir [])"
    unfolding fs3_def using d2 by (rule lookup_put_here)
  have c3: "lookup fs3 (?P @ [''config.json'']) = None"
    unfolding fs3_def
    using lookup_put_sibling [OF d2, of "''files''" "''config.json''" "Dir []"]
      lookup_in_empty [OF l2, of "''config.json''"] by simp
  have g3: "lookup fs3 (?P @ [''guidelines.md'']) = None"
    unfolding fs3_def
    using lookup_put_sibling [OF d2, of "''files''" "''guidelines.md''" "Dir []"]
      lookup_in_empty [OF l2, of "''guidelines.md''"] by simp
  have w4: "write_at (?P @ [''config.json'']) ?text fs3 = Inr fs4"
    unfolding fs4_def using write_at_in [OF d3, of "''config.json''" ?text] c3 by simp
  have d4: "is_dir (lookup fs4 ?P)"
    unfolding fs4_def using d3 lookup_put_parent [of ?P "''config.json''" "File ?text" fs3] by simp
  have f4: "lookup fs4 (?P @ [''files'']) = Some (Dir [])"
    unfolding fs4_def
    using lookup_put_sibling [OF d3, of "''config.json''" "''files''" "File ?text"] f3 by simp
  have g4: "lookup fs4 (?P @ [''guidelines.md'']) = None"
    unfolding fs4_def
    using lookup_put_sibling [OF d3, of "''config.json''" "''guidelines.md''" "File ?text"] g3 by simp
  have out: "lookup (put (?P @ [x]) n f) q = lookup f q"
    if "\<not> prefix ?P q" "\<not> prefix q ?P" for x n f q
    using not_prefix_snoc [OF that, of x] by (intro lookup_put_apart) simp_all
  have out2: "lookup fs2 q = lookup fs q" if "\<not> prefix ?P q" "\<not> prefix q ?P" for q
    unfolding fs2_def using that by (intro lookup_put_apart) simp_all
  have out4: "lookup fs4 q = lookup fs q" if "\<not> prefix ?P q" "\<not> prefix q ?P" for q
    using out [OF that, of "''config.json''" "File ?text" fs3] out [OF that, of "''files''" "Dir []" fs2]
      out2 [OF that] unfolding fs4_def fs3_def by simp
  have ex: "existsSync fs PDp" using es by (simp add: PDp existsSync_plain)
  have unfold2: "createProject root input now uuid fs =
     (case mkdir_p ?P fs of
        Inl e \<Rightarrow> (Inl e, fs)
      | Inr fs2 \<Rightarrow>
          (case mkdir_p (?P @ [''files'']) fs2 of
             Inl e \<Rightarrow> (Inl e, fs2)
           | Inr fs3 \<Rightarrow>
               (case write_at (?P @ [''config.json'']) ?text fs3 of
                  Inl e \<Rightarrow> (Inl e, fs3)
                | Inr fs4 \<Rightarrow>
                    if truthy_string (in_guidelines input) then
                      (case write_at (?P @ [''guidelines.md'']) (the (in_guidelines input)) fs4 of
                         Inl e \<Rightarrow> (Inl e, fs4)
                       | Inr fs5 \<Rightarrow> (Inr cfg, fs5))
                    else (Inr cfg, fs4))))"
    using ex unfolding unfold
    by (simp add: slug_def cfg_def jP [unfolded slug_def] jf [unfolded slug_def]
        mkdirSync_plain writeFileSync_plain cong: sum.case_cong if_cong)
  show ?thesis
  proof (cases "truthy_string (in_guidelines input)")
    case False
    have "createProject root input now uuid fs = (Inr cfg, fs4)"
      unfolding unfold2 using m2 m3 w4 False by simp
    then show ?thesis using f4 d4 out4 by simp
  next
    case True
    define fs5 where "fs5 = put (?P @ [''guidelines.md'']) (File (the (in_guidelines input))) fs4"
    have w5: "write_at (?P @ [''guidelines.md'']) (the (in_guidelines input)) fs4 = Inr fs5"
      unfolding fs5_def
      using write_at_in [OF d4, of "''guidelines.md''" "the (in_guidelines input)"] g4 by simp
    have "createProject root input now uuid fs = (Inr cfg, fs5)"
      unfolding unfold2 using m2 m3 w4 w5 True by simp
    moreover have "lookup fs5 (?P @ [''files'']) = Some (Dir [])"
      unfolding fs5_def
      using lookup_put_sibling [OF d4, of "''guidelines.md''" "''files''" "File (the (in_guidelines input))"] f4
      by simp
    moreover have "is_dir (lookup fs5 ?P)"
      unfolding fs5_def
      using d4 lookup_put_parent [of ?P "''guidelines.md''" "File (the (in_guidelines input))" fs4] by simp
    moreover have "lookup fs5 q = lookup fs q" if "\<not> prefix ?P q" "\<not> prefix q ?P" for q
      using out [OF that, of "''guidelines.md''" "File (the (in_guidelines input))" fs4] out4 [OF that]
      unfolding fs5_def by simp
    ultimately show ?thesis by simp
  qed
  qed
  then show ?thesis unfolding cfg_def slug_def PD_def PDp_def .
qed

lemma createProject_mkdir:
  assumes "\<not> existsSync fs (getWorkspaceProjectsPath root)"
    and "mkdirSync (getWorkspaceProjectsPath root) fs = Inr fs1"
  shows "createProject root input now uuid fs = createProject root input now uuid fs1"
proof -
  have "is_dir (lookup fs1 (fst (getWorkspaceProjectsPath root)))"
    using assms(2) unfolding mkdirSync_def by (rule mkdir_p_is_dir) simp
  then have "existsSync fs1 (getWorkspaceProjectsPath root)"
    by (auto simp: existsSync_def resolve_def is_dir_conv)
  then show ?thesis using assms by (simp add: createProject_def Let_def)
qed

lemma my_plan_slugs:
  "generateSlug ''My Plan'' = ''my-plan''" "candidate ''my-plan'' 2 = ''my-plan-2''"
  "simple_segment ''my-plan''" "simple_segment ''my-plan-2''"
  by (code_simp, code_simp, simp_all add: simple_segment_def)

lemma first_slug:
  assumes "is_clean (fst dir)" "lookup fs (fst dir @ [''my-plan'']) = None"
  shows "generateUniqueProjectSlug fs ''My Plan'' dir = ''my-plan''"
  using assms
  by (simp add: generateUniqueProjectSlug_def Let_def my_plan_slugs join_simple existsSync_plain)

lemma second_slug:
  assumes "is_clean (fst dir)" "lookup fs (fst dir @ [''my-plan'']) \<noteq> None"
    "lookup fs (fst dir @ [''my-plan-2'']) = None"
  shows "generateUniqueProjectSlug fs ''My Plan'' dir = ''my-plan-2''"
proof -
  have "probe fs dir ''my-plan'' 2 = 2"
    using assms by (subst probe.simps) (simp add: my_plan_slugs join_simple existsSync_plain)
  then show ?thesis using assms
    by (simp add: generateUniqueProjectSlug_def Let_def my_plan_slugs join_simple existsSync_plain)
qed

lemma uuid_prefix: "is_uuid u \<Longrightarrow> length (take 8 u) = 8 \<and> (\<forall>c\<in>set (take 8 u). is_hex c)"
proof -
  assume u: "is_uuid u"
  then have len: "length u = 36" by (simp add: is_uuid_def)
  have "is_hex c" if "c \<in> set (take 8 u)" for c
  proof -
    from that obtain i where i: "i < 8" "c = u ! i"
      using len by (auto simp: in_set_conv_nth)
    then have "i < 36" "\<not> (i = 8 \<or> i = 13 \<or> i = 18 \<or> i = 23)" by auto
    with u i(2) show ?thesis unfolding is_uuid_def by metis
  qed
  with len show ?thesis by simp
qed

lemma getProjectPath_simple:
  "simple_segment s \<Longrightarrow>
   getProjectPath root s = (fst (getWorkspaceProjectsPath root) @ [s], False)"
  by (simp add: getProjectPath_def join_simple is_clean_paths)


text \<open>
  Claim C2: on an empty projects root (the directory exists and is empty, or it does not
  exist yet in a workspace folder that does), \<open>createProject\<close> with the name
  \<^verbatim>\<open>My Plan\<close> returns a configuration with the slug \<^verbatim>\<open>my-plan\<close>, an id made of
  \<^verbatim>\<open>proj_\<close> and the first 8 characters of the UUID, which are hexadecimal digits, and
  \<open>createdAt\<close> equal to \<open>updatedAt\<close>; it leaves the project directory with an
  empty \<^verbatim>\<open>files\<close> directory; a second call with the same name returns the slug
  \<^verbatim>\<open>my-plan-2\<close>. \<open>resolve\<close> gives what a path names on a disk.
\<close>

theorem createProject_my_plan:
  assumes "resolve fs (getWorkspaceProjectsPath root) = Some (Dir [])
           \<or> resolve fs (getWorkspaceProjectsPath root) = None
             \<and> is_dir (lookup fs (butlast (fst (getWorkspaceProjectsPath root))))"
    and "in_name input = ''My Plan''" and "is_uuid uuid"
    and "in_name input2 = ''My Plan''"
  shows "\<exists>cfg cfg2.
           fst (createProject root input now uuid fs) = Inr cfg
         \<and> pc_slug cfg = ''my-plan''
         \<and> pc_id cfg = ''proj_'' @ take 8 uuid
         \<and> length (take 8 uuid) = 8 \<and> (\<forall>c\<in>set (take 8 uuid). is_hex c)
         \<and> pc_createdAt cfg = pc_updatedAt cfg
         \<and> is_dir (resolve (snd (createProject root input now uuid fs))
                     (getProjectPath root ''my-plan''))
         \<and> resolve (snd (createProject root input now uuid fs))
               (getProjectFilesPath root ''my-plan'')
             = Some (Dir [])
         \<and> fst (createProject root input2 now2 uuid2 (snd (createProject root input now uuid fs)))
             = Inr cfg2
         \<and> pc_slug cfg2 = ''my-plan-2''"
proof -
  let ?PDp = "getWorkspaceProjectsPath root"
  let ?PD = "fst ?PDp"
  have PDp: "?PDp = (?PD, False)"
    using getWorkspaceProjectsPath_plain [of root] by (simp add: prod_eq_iff)
  have rs: "resolve f ?PDp = lookup f ?PD" for f
    using resolve_plain [of f ?PD] PDp by simp
  have clean: "is_clean ?PD" by (simp add: is_clean_paths)
  obtain fs1 where fs1: "createProject root input now uuid fs = createProject root input now uuid fs1"
    and e1: "lookup fs1 ?PD = Some (Dir [])"
  proof (cases "lookup fs ?PD = Some (Dir [])")
    case True
    then show ?thesis using that [of fs] by simp
  next
    case False
    with assms(1) have n: "lookup fs ?PD = None" and d: "is_dir (lookup fs (butlast ?PD))"
      by (auto simp: rs)
    have ne: "?PD \<noteq> []" by (simp add: getWorkspaceProjectsPath_def join_simple simple_segments
        join_def normalize_def split_slash_simple norm_step_def)
    obtain es where es: "lookup fs (butlast ?PD) = Some (Dir es)"
      using d by (cases "lookup fs (butlast ?PD)" rule: is_dir.cases) auto
    have "lookup fs (butlast ?PD @ [last ?PD]) = None" using n ne by simp
    then have "map_of es (last ?PD) = None" using es by (simp add: lookup_snoc)
    from mkdir_p_new [OF es this]
    have m: "mkdirSync ?PDp fs = Inr (put ?PD (Dir []) fs)" using ne by (simp add: mkdirSync_def)
    have "lookup (put ?PD (Dir []) fs) ?PD = Some (Dir [])"
      using lookup_put_under [OF ne d, of "Dir []" "[]"] by simp
    moreover have "createProject root input now uuid fs
        = createProject root input now uuid (put ?PD (Dir []) fs)"
      using n m by (intro createProject_mkdir) (simp_all add: existsSync_def rs)
    ultimately show ?thesis using that by blast
  qed
  have pd1: "is_dir (lookup fs1 ?PD)" using e1 by simp
  have s1: "generateUniqueProjectSlug fs1 (in_name input) ?PDp = ''my-plan''"
    using clean e1 by (simp add: assms(2) first_slug lookup_in_empty)
  note c1 = createProject_in_dir [OF pd1, of input now uuid, unfolded s1, folded fs1]
  let ?fs' = "snd (createProject root input now uuid fs)"
  have d': "is_dir (lookup ?fs' (?PD @ [''my-plan'']))" using c1 by simp
  then have "lookup ?fs' (?PD @ [''my-plan'']) \<noteq> None" by (auto simp: is_dir_conv)
  then have pd2: "is_dir (lookup ?fs' ?PD)" by (rule lookup_prefix_dir) simp
  have "lookup ?fs' (?PD @ [''my-plan-2'']) = lookup fs1 (?PD @ [''my-plan-2''])"
    using c1 by simp
  then have n2: "lookup ?fs' (?PD @ [''my-plan-2'']) = None" using e1 by (simp add: lookup_in_empty)
  have "lookup ?fs' (?PD @ [''my-plan'']) \<noteq> None" using d' by (auto simp: is_dir_conv)
  from second_slug [OF clean this n2]
  have s2: "generateUniqueProjectSlug ?fs' (in_name input2) ?PDp = ''my-plan-2''"
    by (simp add: assms(4))
  note c2 = createProject_in_dir [OF pd2, of input2 now2 uuid2, unfolded s2]
  show ?thesis
    using c1 c2 uuid_prefix [OF assms(3)]
    by (simp add: getProjectPath_simple my_plan_slugs getProjectFilesPath_eq resolve_plain)
qed

theorem createProject_my_plan_witness:
  "pc_slug (projr (fst (createProject [''w'']
       \<lparr> in_name = ''My Plan'', in_description = None, in_guidelines = None,
         in_enabledSourceSlugs = None \<rparr> 1000 ''123e4567-e89b-12d3-a456-426614174000''
       (Dir [(''w'', Dir [])])))) = ''my-plan''
   \<and> resolve (snd (createProject [''w'']
       \<lparr> in_name = ''My Plan'', in_description = None, in_guidelines = None,
         in_enabledSourceSlugs = None \<rparr> 1000 ''123e4567-e89b-12d3-a456-426614174000''
       (Dir [(''w'', Dir [])]))) ([''w'', ''projects'', ''my-plan'', ''files''], False)
     = Some (Dir [])
   \<and> pc_slug (projr (fst (createProject [''w'']
       \<lparr> in_name = ''My Plan'', in_description = None, in_guidelines = None,
         in_enabledSourceSlugs = None \<rparr> 2000 ''00000000-0000-4000-8000-000000000000''
       (snd (createProject [''w'']
         \<lparr> in_name = ''My Plan'', in_description = None, in_guidelines = None,
           in_enabledSourceSlugs = None \<rparr> 1000 ''123e4567-e89b-12d3-a456-426614174000''
         (Dir [(''w'', Dir [])])))))) = ''my-plan-2''"
proof -
  let ?fs = "Dir [(''w'', Dir [])]"
  let ?in = "\<lparr> in_name = ''My Plan'', in_description = None, in_guidelines = None,
         in_enabledSourceSlugs = None \<rparr>"
  have p: "getWorkspaceProjectsPath [''w''] = ([''w'', ''projects''], False)"
    "getProjectFilesPath [''w''] ''my-plan'' = ([''w'', ''projects'', ''my-plan'', ''files''], False)"
    by code_simp+
  have h1: "resolve ?fs (getWorkspaceProjectsPath [''w'']) = Some (Dir [])
           \<or> resolve ?fs (getWorkspaceProjectsPath [''w'']) = None
             \<and> is_dir (lookup ?fs (butlast (fst (getWorkspaceProjectsPath [''w'']))))"
    unfolding p by (simp add: resolve_plain)
  have h2: "in_name ?in = ''My Plan''" by simp
  have h3: "is_uuid ''123e4567-e89b-12d3-a456-426614174000''" by code_simp
  from createProject_my_plan [OF h1 h2 h3 h2, of 1000 2000 "''00000000-0000-4000-8000-000000000000''"]
  show ?thesis unfolding p by auto
qed



section \<open>Renaming a file\<close>

lemma lookup_prefix_exists: "lookup fs q \<noteq> None \<Longrightarrow> prefix p q \<Longrightarrow> lookup fs p \<noteq> None"
  by (auto simp: prefix_def lookup_append split: option.splits)

lemma lookup_strict_prefix_dir:
  "lookup fs q \<noteq> None \<Longrightarrow> strict_prefix p q \<Longrightarrow> is_dir (lookup fs p)"
proof -
  assume a: "lookup fs q \<noteq> None" "strict_prefix p q"
  then obtain r where "q = p @ r" "r \<noteq> []" by (auto simp: strict_prefix_def prefix_def)
  with a(1) show ?thesis using lookup_prefix_dir by blast
qed

lemma is_dir_remove:
  assumes "old \<noteq> []" "\<not> prefix old p" "is_dir (lookup fs p)"
  shows "is_dir (lookup (remove old fs) p)"
proof (cases "prefix p old")
  case True
  with assms(2) have "strict_prefix p old" by (auto simp: strict_prefix_def)
  from is_dir_remove_above [OF assms(1) this] assms(3) show ?thesis by simp
next
  case False
  with assms show ?thesis by (simp add: lookup_remove_apart)
qed

text \<open>
  What a rename that returns does: the node under the old path is under the new one, the
  old path is free, and the new path's directory is there.
\<close>

lemma rename_at_moved:
  assumes r: "rename_at old new fs = Inr fs'"
    and o: "lookup fs old = Some n" and nn: "lookup fs new = None"
  shows "lookup fs' new = Some n \<and> lookup fs' old = None \<and> is_dir (lookup fs' (butlast new))
         \<and> \<not> prefix old new"
proof -
  from r o nn have ne: "new \<noteq> []" "old \<noteq> []" and pd: "is_dir (lookup fs (butlast new))"
    and neq: "old \<noteq> new" and inv: "\<not> (is_Dir n \<and> prefix old new)"
    and fs': "fs' = put new n (remove old fs)"
    by (auto simp: rename_at_def is_dir_conv prefix_def split: if_splits)
  have np: "\<not> prefix old new"
  proof
    assume p: "prefix old new"
    with inv have f: "\<not> is_Dir n" by simp
    from p neq obtain r where r: "new = old @ r" "r \<noteq> []" by (auto simp: prefix_def)
    show False
    proof (cases "butlast r = []")
      case True
      then have "butlast new = old" using r by (simp add: butlast_append)
      with pd o f show False by (simp add: is_dir_conv)
    next
      case False
      have "butlast new = old @ butlast r" using r by (simp add: butlast_append)
      with lookup_below_file [OF o f False] pd show False by simp
    qed
  qed
  have npb: "\<not> prefix old (butlast new)"
    using np by (meson prefix_order.trans prefixeq_butlast)
  have d1: "is_dir (lookup (remove old fs) (butlast new))"
    using ne(2) npb pd by (rule is_dir_remove)
  have a: "lookup fs' new = Some n"
    using lookup_put_under [OF ne(1) d1, of n "[]"] fs' by simp
  have "\<not> prefix new old"
  proof
    assume "prefix new old"
    with o have "lookup fs new \<noteq> None" by (intro lookup_prefix_exists [of fs old new]) simp_all
    with nn show False by simp
  qed
  then have "lookup fs' old = lookup (remove old fs) old"
    unfolding fs' using ne(1) np by (intro lookup_put_apart) simp_all
  then have b: "lookup fs' old = None"
    using lookup_remove_under [OF ne(2), of fs "[]"] by simp
  have "strict_prefix (butlast new) new" using ne(1)
    by (metis append_butlast_last_id not_Cons_self2 prefixI same_append_eq self_append_conv strict_prefix_def)
  from is_dir_put_above [OF ne(1) this] d1 fs' have c: "is_dir (lookup fs' (butlast new))" by simp
  from a b c np show ?thesis by simp
qed


lemma renameProjectFile_unfold:
  "renameProjectFile root slug oldPath newPath fs =
     (let old = join (getProjectFilesPath root slug) oldPath;
          new = join (getProjectFilesPath root slug) newPath
      in if \<not> existsSync fs old then (False, fs)
         else if existsSync fs new then (False, fs)
         else (case (if lookup fs (butlast (fst new)) = None then mkdir_p (butlast (fst new)) fs
                     else Inr fs) of
                 Inl e \<Rightarrow> (False, fs)
               | Inr fs1 \<Rightarrow>
                   (case renameSync old new fs1 of
                      Inl e \<Rightarrow> (False, fs1)
                    | Inr fs2 \<Rightarrow> (True, fs2))))"
  by (simp add: renameProjectFile_def Let_def join_parent is_clean_join existsSync_plain
      mkdirSync_plain)






section \<open>The files directory of a project\<close>

text \<open>Which operations leave a directory in place.\<close>

lemma mkdirSync_keeps_dir:
  "mkdirSync p fs = Inr fs' \<Longrightarrow> is_dir (lookup fs q) \<Longrightarrow> is_dir (lookup fs' q)"
  unfolding mkdirSync_def by (rule mkdir_p_keeps_dir)

lemma writeFileSync_keeps_dir:
  "writeFileSync p c fs = Inr fs' \<Longrightarrow> is_dir (lookup fs q) \<Longrightarrow> is_dir (lookup fs' q)"
  by (cases "snd p") (auto simp: writeFileSync_def intro: write_at_keeps_dir)

lemma mkdir_step_keeps_dir:
  assumes "(if \<not> existsSync fs d then mkdirSync d fs else Inr fs) = Inr fs1" "is_dir (lookup fs q)"
  shows "is_dir (lookup fs1 q)"
  using assms by (auto split: if_splits intro: mkdirSync_keeps_dir)

lemma rm_at_keeps_dir:
  assumes "rm_at p fs = Inr fs'" "is_dir (lookup fs q)" "\<not> prefix p q"
  shows "is_dir (lookup fs' q)"
proof -
  from assms(1) have "p \<noteq> []" "fs' = remove p fs"
    by (auto simp: rm_at_def split: option.splits if_splits)
  with is_dir_remove [OF this(1) assms(3) assms(2)] show ?thesis by simp
qed

lemma rename_at_keeps_dir:
  assumes r: "rename_at old new fs = Inr fs'" and nn: "lookup fs new = None"
    and d: "is_dir (lookup fs q)" and np: "\<not> prefix old q"
  shows "is_dir (lookup fs' q)"
proof -
  from r nn obtain n where ne: "new \<noteq> []" "old \<noteq> []" and fs': "fs' = put new n (remove old fs)"
    by (auto simp: rename_at_def split: option.splits if_splits)
  have d1: "is_dir (lookup (remove old fs) q)" using ne(2) np d by (rule is_dir_remove)
  have nq: "\<not> prefix new q"
  proof
    assume "prefix new q"
    moreover have "lookup fs q \<noteq> None" using d by (auto simp: is_dir_conv)
    ultimately have "lookup fs new \<noteq> None" by (intro lookup_prefix_exists [of fs q new])
    with nn show False by simp
  qed
  show ?thesis
  proof (cases "prefix q new")
    case True
    with nq have "strict_prefix q new" by (auto simp: strict_prefix_def)
    from is_dir_put_above [OF ne(1) this] d1 fs' show ?thesis by simp
  next
    case False
    with nq ne(1) d1 fs' show ?thesis by (simp add: lookup_put_apart)
  qed
qed

lemma createProject_keeps_dir:
  assumes "is_dir (lookup fs q)"
  shows "is_dir (lookup (snd (createProject root input now uuid fs)) q)"
proof -
  let ?PD = "getWorkspaceProjectsPath root"
  show ?thesis
  proof (cases "if \<not> existsSync fs ?PD then mkdirSync ?PD fs else Inr fs")
    case (Inl e)
    then show ?thesis using assms by (simp add: createProject_def Let_def)
  next
    case (Inr fs1)
    from mkdir_step_keeps_dir [OF Inr assms] have d1: "is_dir (lookup fs1 q)" .
    let ?P = "join ?PD (generateUniqueProjectSlug fs1 (in_name input) ?PD)"
    show ?thesis
    proof (cases "mkdirSync ?P fs1")
      case (Inl e)
      then show ?thesis using Inr d1 by (simp add: createProject_def Let_def)
    next
      case m2: (Inr fs2)
      from mkdirSync_keeps_dir [OF m2 d1] have d2: "is_dir (lookup fs2 q)" .
      show ?thesis
      proof (cases "mkdirSync (join ?P ''files'') fs2")
        case (Inl e)
        then show ?thesis using Inr m2 d2 by (simp add: createProject_def Let_def)
      next
        case m3: (Inr fs3)
        from mkdirSync_keeps_dir [OF m3 d2] have d3: "is_dir (lookup fs3 q)" .
        let ?cfg = "\<lparr> pc_id = ''proj_'' @ take 8 uuid, pc_name = in_name input,
            pc_slug = generateUniqueProjectSlug fs1 (in_name input) ?PD,
            pc_description = in_description input, pc_guidelines = in_guidelines input,
            pc_createdAt = Finite now, pc_updatedAt = Finite now,
            pc_enabledSourceSlugs = in_enabledSourceSlugs input \<rparr>"
        show ?thesis
        proof (cases "writeFileSync (join ?P ''config.json'')
            (JSON_stringify (VObj (object_of_config ?cfg))) fs3")
          case (Inl e)
          then show ?thesis using Inr m2 m3 d3 by (simp add: createProject_def Let_def)
        next
          case w4: (Inr fs4)
          from writeFileSync_keeps_dir [OF w4 d3] have d4: "is_dir (lookup fs4 q)" .
          show ?thesis
          proof (cases "truthy_string (in_guidelines input)")
            case False
            then show ?thesis using Inr m2 m3 w4 d4 by (simp add: createProject_def Let_def)
          next
            case True
            show ?thesis
            proof (cases "writeFileSync (join ?P ''guidelines.md'') (the (in_guidelines input)) fs4")
              case (Inl e)
              then show ?thesis using Inr m2 m3 w4 d4 True by (simp add: createProject_def Let_def)
            next
              case w5: (Inr fs5)
              from writeFileSync_keeps_dir [OF w5 d4] show ?thesis
                using Inr m2 m3 w4 w5 True by (simp add: createProject_def Let_def)
            qed
          qed
        qed
      qed
    qed
  qed
qed

lemma updateProject_keeps_dir:
  assumes "is_dir (lookup fs q)"
  shows "is_dir (lookup (snd (updateProject root slug u now now_save fs)) q)"
proof (cases "truthy (loadProjectConfig fs root slug)")
  case False
  then show ?thesis using assms by (simp add: updateProject_def Let_def)
next
  case True
  let ?fs1 = "snd (saveProjectConfig root slug
      (VObj (merge_updates (loadProjectConfig fs root slug) u now)) now_save fs)"
  have d: "is_dir (lookup ?fs1 q)" using assms by (rule saveProjectConfig_keeps_dir)
  from True show ?thesis
  proof (cases rule: updateProject_cases [where u = u and now = now and now_save = now_save])
    case no_guidelines
    with d show ?thesis by simp
  next
    case (written g fs2)
    from write_at_keeps_dir [OF written(3) d] written(4) show ?thesis by simp
  next
    case (removed fs2)
    from unlink_at_keeps_dir [OF removed(3) d] removed(4) show ?thesis by simp
  next
    case absent
    with d show ?thesis by simp
  next
    case (threw e)
    with d show ?thesis by simp
  qed
qed

lemma writeProjectFile_keeps_dir:
  assumes "is_dir (lookup fs q)"
  shows "is_dir (lookup (snd (writeProjectFile root slug filePath content fs)) q)"
proof -
  let ?full = "join (getProjectFilesPath root slug) filePath"
  let ?dir = "join ?full ''..''"
  show ?thesis
  proof (cases "if \<not> existsSync fs ?dir then mkdirSync ?dir fs else Inr fs")
    case (Inl e)
    then show ?thesis using assms by (simp add: writeProjectFile_def Let_def)
  next
    case (Inr fs1)
    from mkdir_step_keeps_dir [OF Inr assms] have d: "is_dir (lookup fs1 q)" .
    show ?thesis
    proof (cases "writeFileSync ?full content fs1")
      case (Inl e)
      then show ?thesis using Inr d by (simp add: writeProjectFile_def Let_def)
    next
      case w: (Inr fs2)
      from writeFileSync_keeps_dir [OF w d] show ?thesis
        using Inr w by (simp add: writeProjectFile_def Let_def)
    qed
  qed
qed

lemma createProjectFile_keeps_dir:
  assumes "is_dir (lookup fs q)"
  shows "is_dir (lookup (snd (createProjectFile root slug filePath content fs)) q)"
proof -
  let ?full = "join (getProjectFilesPath root slug) filePath"
  let ?dir = "join ?full ''..''"
  show ?thesis
  proof (cases "existsSync fs ?full")
    case True
    then show ?thesis using assms by (simp add: createProjectFile_def Let_def)
  next
    case False
    show ?thesis
    proof (cases "if \<not> existsSync fs ?dir then mkdirSync ?dir fs else Inr fs")
      case (Inl e)
      then show ?thesis using assms False by (simp add: createProjectFile_def Let_def)
    next
      case (Inr fs1)
      from mkdir_step_keeps_dir [OF Inr assms] have d: "is_dir (lookup fs1 q)" .
      show ?thesis
      proof (cases "writeFileSync ?full content fs1")
        case (Inl e)
        then show ?thesis using Inr d False by (simp add: createProjectFile_def Let_def)
      next
        case w: (Inr fs2)
        from writeFileSync_keeps_dir [OF w d] show ?thesis
          using Inr w False by (simp add: createProjectFile_def Let_def)
      qed
    qed
  qed
qed

lemma deleteProject_keeps_dir:
  assumes "is_dir (lookup fs q)" "\<not> prefix (fst (getProjectPath root slug)) q"
  shows "is_dir (lookup (snd (deleteProject root slug fs)) q)"
  using assms
  by (auto simp: deleteProject_def Let_def rmSync_def split: if_splits sum.splits
      intro: rm_at_keeps_dir)

lemma deleteProjectFile_keeps_dir:
  assumes "is_dir (lookup fs q)"
    and "\<not> prefix (fst (join (getProjectFilesPath root slug) filePath)) q"
  shows "is_dir (lookup (snd (deleteProjectFile root slug filePath fs)) q)"
  using assms
  by (auto simp: deleteProjectFile_def Let_def rmSync_def unlinkSync_def
      split: if_splits sum.splits intro: rm_at_keeps_dir unlink_at_keeps_dir)

lemma renameProjectFile_keeps_dir:
  assumes d: "is_dir (lookup fs q)"
    and np: "\<not> prefix (fst (join (getProjectFilesPath root slug) oldPath)) q"
  shows "is_dir (lookup (snd (renameProjectFile root slug oldPath newPath fs)) q)"
proof -
  define old where "old = join (getProjectFilesPath root slug) oldPath"
  define new where "new = join (getProjectFilesPath root slug) newPath"
  let ?step = "if lookup fs (butlast (fst new)) = None then mkdir_p (butlast (fst new)) fs else Inr fs"
  have unfold: "renameProjectFile root slug oldPath newPath fs =
      (if \<not> existsSync fs old then (False, fs)
       else if existsSync fs new then (False, fs)
       else (case ?step of
               Inl e \<Rightarrow> (False, fs)
             | Inr fs1 \<Rightarrow>
                 (case renameSync old new fs1 of
                    Inl e \<Rightarrow> (False, fs1)
                  | Inr fs2 \<Rightarrow> (True, fs2))))"
    unfolding old_def new_def renameProjectFile_unfold Let_def ..
  show ?thesis
  proof (cases "\<not> existsSync fs old \<or> existsSync fs new")
    case True
    then show ?thesis unfolding unfold using d by auto
  next
    case False
    then have ex: "existsSync fs old" "\<not> existsSync fs new" by simp_all
    show ?thesis
    proof (cases ?step)
      case (Inl e)
      then show ?thesis unfolding unfold using ex d by simp
    next
      case (Inr fs1)
      then have d1: "is_dir (lookup fs1 q)"
        using d by (auto split: if_splits intro: mkdir_p_keeps_dir)
      show ?thesis
      proof (cases "renameSync old new fs1")
        case (Inl e)
        then show ?thesis unfolding unfold using ex Inr d1 by simp
      next
        case r: (Inr fs2)
        then have ra: "rename_at (fst old) (fst new) fs1 = Inr fs2"
          and c: "snd new \<longrightarrow> is_dir (lookup fs1 (fst old))"
          by (auto simp: renameSync_def resolve_def is_dir_conv split: option.splits if_splits)
        have nn: "lookup fs1 (fst new) = None"
        proof (cases "lookup fs1 (fst new)")
          case None
          then show ?thesis .
        next
          case (Some k)
          have "lookup fs (fst new) = Some k"
          proof (cases "lookup fs (butlast (fst new)) = None")
            case True
            with Inr have m: "mkdir_p (butlast (fst new)) fs = Inr fs1" by simp
            have ne: "fst new \<noteq> []"
            proof
              assume e: "fst new = []"
              then have "lookup fs (butlast (fst new)) \<noteq> None" by simp
              with True show False by simp
            qed
            have "\<not> prefix (fst new) (butlast (fst new))"
              using ne by (metis append_butlast_last_id
                  not_Cons_self2 prefix_order.antisym prefixeq_butlast self_append_conv)
            from mkdir_p_apart [OF m this] Some show ?thesis by simp
          next
            case False
            with Inr Some show ?thesis by simp
          qed
          with ex(2) have tr: "snd new" and nd: "\<not> is_Dir k"
            by (auto simp: existsSync_def resolve_def split: option.splits if_splits)
          from c tr obtain n where n: "lookup fs1 (fst old) = Some n" "is_Dir n"
            by (auto simp: is_dir_conv)
          have "fst old \<noteq> fst new" using n Some nd by auto
          then have "\<exists>e. rename_at (fst old) (fst new) fs1 = Inl e"
            using n Some nd by (cases k) (auto simp: rename_at_def is_dir_conv)
          with ra show ?thesis by simp
        qed
        from rename_at_keeps_dir [OF ra nn d1] np have "is_dir (lookup fs2 q)"
          by (simp add: old_def)
        then show ?thesis unfolding unfold using ex Inr r by simp
      qed
    qed
  qed
qed


text \<open>Which operations leave a \<^verbatim>\<open>files\<close> directory in the folder they create.\<close>

lemma createProject_returns:
  assumes "fst (createProject root input now uuid fs) = Inr cfg"
  shows "lookup (snd (createProject root input now uuid fs))
           (fst (getProjectFilesPath root (pc_slug cfg)))
         = Some (Dir [])"
proof -
  let ?PDp = "getWorkspaceProjectsPath root"
  let ?PD = "fst ?PDp"
  have PDp: "?PDp = (?PD, False)"
    using getWorkspaceProjectsPath_plain [of root] by (simp add: prod_eq_iff)
  have fin: "lookup (snd (createProject root input now uuid fs))
           (fst (getProjectFilesPath root (pc_slug cfg))) = Some (Dir [])"
    if eq: "createProject root input now uuid fs = createProject root input now uuid fs1"
      and d: "is_dir (lookup fs1 ?PD)" for fs1
  proof -
    let ?slug = "generateUniqueProjectSlug fs1 (in_name input) ?PDp"
    note c = createProject_in_dir [OF d, of input now uuid, folded eq]
    from c assms have "pc_slug cfg = ?slug" by auto
    moreover have "fst (getProjectFilesPath root ?slug) = ?PD @ [?slug, ''files'']"
      by (simp add: getProjectFilesPath_eq getProjectPath_simple generateUniqueProjectSlug_simple)
    ultimately show ?thesis using c by simp
  qed
  show ?thesis
  proof (cases "existsSync fs ?PDp")
    case True
    show ?thesis
    proof (cases "is_dir (lookup fs ?PD)")
      case d: True
      then show ?thesis by (intro fin [of fs]) simp_all
    next
      case False
      let ?P = "join ?PDp (generateUniqueProjectSlug fs (in_name input) ?PDp)"
      have "fst ?P = ?PD @ [generateUniqueProjectSlug fs (in_name input) ?PDp]"
        by (simp add: join_simple generateUniqueProjectSlug_simple is_clean_paths)
      then have "prefix ?PD (fst ?P)" by simp
      moreover have "lookup fs ?PD \<noteq> None" using True by (rule existsSync_lookup)
      ultimately have "\<not> (\<forall>p. prefix p (fst ?P) \<and> lookup fs p \<noteq> None \<longrightarrow> is_dir (lookup fs p))"
        using False by blast
      moreover have "(\<exists>fs'. mkdir_p (fst ?P) fs = Inr fs')
          = (\<forall>p. prefix p (fst ?P) \<and> lookup fs p \<noteq> None \<longrightarrow> is_dir (lookup fs p))"
        by (rule mkdir_p_returns_iff)
      ultimately have "\<not> (\<exists>fs'. mkdir_p (fst ?P) fs = Inr fs')" by blast
      then obtain e where "mkdirSync ?P fs = Inl e"
        by (cases "mkdir_p (fst ?P) fs") (auto simp: mkdirSync_def)
      then have "createProject root input now uuid fs = (Inl e, fs)"
        using True by (simp add: createProject_def Let_def)
      with assms show ?thesis by simp
    qed
  next
    case False
    show ?thesis
    proof (cases "mkdirSync ?PDp fs")
      case (Inl e)
      then have "createProject root input now uuid fs = (Inl e, fs)"
        using False by (simp add: createProject_def Let_def)
      with assms show ?thesis by simp
    next
      case (Inr fs1)
      have "is_dir (lookup fs1 ?PD)"
        using Inr unfolding mkdirSync_def by (rule mkdir_p_is_dir) simp
      moreover have "createProject root input now uuid fs = createProject root input now uuid fs1"
        using False Inr by (rule createProject_mkdir)
      ultimately show ?thesis by (intro fin [of fs1]) simp_all
    qed
  qed
qed

lemma writeFileSync_lookup:
  "writeFileSync p c fs = Inr fs' \<Longrightarrow> lookup fs' (fst p) = Some (File c)"
  by (cases "snd p") (auto simp: writeFileSync_def intro: write_at_lookup)

lemma writeProjectFile_inside:
  assumes "fst (writeProjectFile root slug filePath content fs) = Inr ()"
    and "strict_prefix (fst (getProjectFilesPath root slug))
           (fst (join (getProjectFilesPath root slug) filePath))"
  shows "is_dir (lookup (snd (writeProjectFile root slug filePath content fs))
           (fst (getProjectFilesPath root slug)))"
proof -
  let ?full = "join (getProjectFilesPath root slug) filePath"
  from assms(1) obtain fs1 where
    "writeFileSync ?full content fs1 = Inr (snd (writeProjectFile root slug filePath content fs))"
    by (auto simp: writeProjectFile_def Let_def split: sum.splits)
  from writeFileSync_lookup [OF this]
  have "lookup (snd (writeProjectFile root slug filePath content fs)) (fst ?full) \<noteq> None" by simp
  then show ?thesis using assms(2) by (rule lookup_strict_prefix_dir)
qed

lemma createProjectFile_inside:
  assumes "fst (createProjectFile root slug filePath content fs) = Inr True"
    and "strict_prefix (fst (getProjectFilesPath root slug))
           (fst (join (getProjectFilesPath root slug) filePath))"
  shows "is_dir (lookup (snd (createProjectFile root slug filePath content fs))
           (fst (getProjectFilesPath root slug)))"
proof -
  let ?full = "join (getProjectFilesPath root slug) filePath"
  from assms(1) obtain fs1 where
    "writeFileSync ?full content fs1 = Inr (snd (createProjectFile root slug filePath content fs))"
    by (auto simp: createProjectFile_def Let_def split: sum.splits if_splits)
  from writeFileSync_lookup [OF this]
  have "lookup (snd (createProjectFile root slug filePath content fs)) (fst ?full) \<noteq> None" by simp
  then show ?thesis using assms(2) by (rule lookup_strict_prefix_dir)
qed


lemma renameProjectFile_inside:
  assumes t: "fst (renameProjectFile root slug oldPath newPath fs)"
    and sp: "strict_prefix (fst (getProjectFilesPath root slug))
           (fst (join (getProjectFilesPath root slug) newPath))"
  shows "is_dir (lookup (snd (renameProjectFile root slug oldPath newPath fs))
           (fst (getProjectFilesPath root slug)))"
proof -
  define old where "old = join (getProjectFilesPath root slug) oldPath"
  define new where "new = join (getProjectFilesPath root slug) newPath"
  let ?step = "if lookup fs (butlast (fst new)) = None then mkdir_p (butlast (fst new)) fs else Inr fs"
  have unfold: "renameProjectFile root slug oldPath newPath fs =
      (if \<not> existsSync fs old then (False, fs)
       else if existsSync fs new then (False, fs)
       else (case ?step of
               Inl e \<Rightarrow> (False, fs)
             | Inr fs1 \<Rightarrow>
                 (case renameSync old new fs1 of
                    Inl e \<Rightarrow> (False, fs1)
                  | Inr fs2 \<Rightarrow> (True, fs2))))"
    unfolding old_def new_def renameProjectFile_unfold Let_def ..
  from t obtain fs1 fs2 where st: "?step = Inr fs1" and r: "renameSync old new fs1 = Inr fs2"
    and res: "renameProjectFile root slug oldPath newPath fs = (True, fs2)"
    unfolding unfold by (auto split: if_splits sum.splits)
  from r obtain n where o: "lookup fs1 (fst old) = Some n"
    and ra: "rename_at (fst old) (fst new) fs1 = Inr fs2"
    by (auto simp: renameSync_def resolve_def split: option.splits if_splits)
  have ne: "fst new \<noteq> []" using sp unfolding new_def by auto
  have pd: "is_dir (lookup fs1 (butlast (fst new)))"
    using ra o ne by (auto simp: rename_at_def split: if_splits)
  have "lookup fs2 (fst new) \<noteq> None"
  proof (cases "lookup fs1 (fst new)")
    case None
    from rename_at_moved [OF ra o None] show ?thesis by simp
  next
    case (Some k)
    show ?thesis
    proof (cases "fst old = fst new")
      case True
      with ra o have "fs2 = fs1" using ne pd by (simp add: rename_at_def)
      with Some show ?thesis by simp
    next
      case False
      have fs2: "fs2 = put (fst new) n (remove (fst old) fs1)"
        using ra o Some False ne pd
        by (cases k) (auto simp: rename_at_def split: if_splits)
      have inv: "\<not> (is_Dir n \<and> prefix (fst old) (fst new))"
        using ra o Some False ne pd
        by (auto simp: rename_at_def is_dir_conv prefix_def split: if_splits)
      have np: "\<not> prefix (fst old) (butlast (fst new))"
      proof
        assume p: "prefix (fst old) (butlast (fst new))"
        then have pn: "prefix (fst old) (fst new)"
          by (meson prefix_order.trans prefixeq_butlast)
        with inv have f: "\<not> is_Dir n" by simp
        from p obtain r where rr: "butlast (fst new) = fst old @ r" by (auto simp: prefix_def)
        show False
        proof (cases "r = []")
          case True
          with rr pd o f show False by (simp add: is_dir_conv)
        next
          case False
          from lookup_below_file [OF o f False] pd rr show False by simp
        qed
      qed
      have oe: "fst old \<noteq> []" using np by auto
      have "is_dir (lookup (remove (fst old) fs1) (butlast (fst new)))"
        using oe np pd by (rule is_dir_remove)
      from lookup_put_under [OF ne this, of n "[]"] show ?thesis by (simp add: fs2)
    qed
  qed
  then have "is_dir (lookup fs2 (fst (getProjectFilesPath root slug)))"
    using sp unfolding new_def by (rule lookup_strict_prefix_dir)
  then show ?thesis by (simp add: res)
qed

text \<open>
  The paths given to the store are not checked. An operation that removes or moves the
  \<^verbatim>\<open>files\<close> directory itself leaves the project folder without it, and a file path
  that leads out of \<^verbatim>\<open>files\<close> can create another project folder without one.
\<close>

lemma deleteProjectFile_empty_path:
  "deleteProjectFile [''w''] ''p'' ''''
     (Dir [(''w'', Dir [(''projects'', Dir [(''p'', Dir [(''files'', Dir [])])])])])
   = (True, Dir [(''w'', Dir [(''projects'', Dir [(''p'', Dir [])])])])"
  by code_simp

lemma renameProjectFile_empty_path:
  "renameProjectFile [''w''] ''p'' '''' ''../old''
     (Dir [(''w'', Dir [(''projects'', Dir [(''p'', Dir [(''files'', Dir [])])])])])
   = (True, Dir [(''w'', Dir [(''projects'', Dir [(''p'', Dir [(''old'', Dir [])])])])])"
  by code_simp

lemma deleteProject_files_path:
  "deleteProject [''w''] ''p/files''
     (Dir [(''w'', Dir [(''projects'', Dir [(''p'', Dir [(''files'', Dir [])])])])])
   = (True, Dir [(''w'', Dir [(''projects'', Dir [(''p'', Dir [])])])])"
  by code_simp

lemma writeProjectFile_outside:
  "writeProjectFile [''w''] ''p'' ''../../q/a.txt'' ''x''
     (Dir [(''w'', Dir [(''projects'', Dir [(''p'', Dir [(''files'', Dir [])])])])])
   = (Inr (), Dir [(''w'', Dir [(''projects'', Dir [(''p'', Dir [(''files'', Dir [])]),
                                                      (''q'', Dir [(''a.txt'', File ''x'')])])])])"
  by code_simp


text \<open>
  Claim C6 says that every operation that creates a project folder leaves a
  \<^verbatim>\<open>files\<close> directory in it and that every later operation keeps it. As stated it
  fails: \<open>saveProjectConfig\<close> for a slug without a folder creates the folder with
  \<^verbatim>\<open>config.json\<close> only.
\<close>

theorem saveProjectConfig_creates_folder_without_files:
  "\<not> existsSync (Dir []) (getProjectPath [''w''] ''p'')
   \<and> is_dir (resolve (snd (saveProjectConfig [''w''] ''p''
        (VObj (object_of_config
           \<lparr> pc_id = ''proj_1a2b3c4d'', pc_name = ''P'', pc_slug = ''p'', pc_description = None,
             pc_guidelines = None, pc_createdAt = Finite 5, pc_updatedAt = Finite 5,
             pc_enabledSourceSlugs = None \<rparr>)) 9 (Dir []))) (getProjectPath [''w''] ''p''))
   \<and> \<not> existsSync (snd (saveProjectConfig [''w''] ''p''
        (VObj (object_of_config
           \<lparr> pc_id = ''proj_1a2b3c4d'', pc_name = ''P'', pc_slug = ''p'', pc_description = None,
             pc_guidelines = None, pc_createdAt = Finite 5, pc_updatedAt = Finite 5,
             pc_enabledSourceSlugs = None \<rparr>)) 9 (Dir []))) (getProjectFilesPath [''w''] ''p'')"
  by code_simp

text \<open>
  Claim C6 as amended. A \<open>createProject\<close> that returns leaves an empty \<^verbatim>\<open>files\<close>
  directory in the folder of the project it created; \<open>writeProjectFile\<close>,
  \<open>createProjectFile\<close> and \<open>renameProjectFile\<close> that succeed for a path strictly
  inside \<^verbatim>\<open>files\<close> (for \<open>renameProjectFile\<close>, the new path) leave the
  \<^verbatim>\<open>files\<close> directory of their project in place or create it. Every operation of the store that changes the disk keeps every directory
  \<open>q\<close> that exists, hence every \<^verbatim>\<open>files\<close> directory, whatever its arguments and
  whether it returns or throws; for \<open>deleteProject\<close>, \<open>deleteProjectFile\<close> and
  \<open>renameProjectFile\<close> this holds for every directory that is neither the path they
  remove or move nor below it (the lemmas above show that the directory goes otherwise).
\<close>

theorem files_directory_created_and_kept:
  "(fst (createProject root input now uuid fs) = Inr cfg \<longrightarrow>
      resolve (snd (createProject root input now uuid fs)) (getProjectFilesPath root (pc_slug cfg))
      = Some (Dir []))
   \<and> (strict_prefix (fst (getProjectFilesPath root slug))
         (fst (join (getProjectFilesPath root slug) filePath)) \<longrightarrow>
        (fst (writeProjectFile root slug filePath content fs) = Inr () \<longrightarrow>
           is_dir (resolve (snd (writeProjectFile root slug filePath content fs))
             (getProjectFilesPath root slug)))
      \<and> (fst (createProjectFile root slug filePath content fs) = Inr True \<longrightarrow>
           is_dir (resolve (snd (createProjectFile root slug filePath content fs))
             (getProjectFilesPath root slug)))
      \<and> (fst (renameProjectFile root slug oldPath filePath fs) \<longrightarrow>
           is_dir (resolve (snd (renameProjectFile root slug oldPath filePath fs))
             (getProjectFilesPath root slug))))
   \<and> (is_dir (lookup fs q) \<longrightarrow>
        is_dir (lookup (snd (createProject root input now uuid fs)) q)
      \<and> is_dir (lookup (snd (saveProjectConfig root slug c now fs)) q)
      \<and> is_dir (lookup (snd (updateProject root slug u now now_save fs)) q)
      \<and> is_dir (lookup (snd (writeProjectFile root slug filePath content fs)) q)
      \<and> is_dir (lookup (snd (createProjectFile root slug filePath content fs)) q)
      \<and> (\<not> prefix (fst (getProjectPath root slug)) q \<longrightarrow>
           is_dir (lookup (snd (deleteProject root slug fs)) q))
      \<and> (\<not> prefix (fst (join (getProjectFilesPath root slug) filePath)) q \<longrightarrow>
           is_dir (lookup (snd (deleteProjectFile root slug filePath fs)) q))
      \<and> (\<not> prefix (fst (join (getProjectFilesPath root slug) oldPath)) q \<longrightarrow>
           is_dir (lookup (snd (renameProjectFile root slug oldPath newPath fs)) q)))"
proof (intro conjI impI)
  assume "fst (createProject root input now uuid fs) = Inr cfg"
  then have "lookup (snd (createProject root input now uuid fs))
      (fst (getProjectFilesPath root (pc_slug cfg))) = Some (Dir [])"
    by (rule createProject_returns)
  then show "resolve (snd (createProject root input now uuid fs))
      (getProjectFilesPath root (pc_slug cfg)) = Some (Dir [])"
    by (simp add: resolve_def)
next
  assume "strict_prefix (fst (getProjectFilesPath root slug))
         (fst (join (getProjectFilesPath root slug) filePath))"
    and "fst (writeProjectFile root slug filePath content fs) = Inr ()"
  then show "is_dir (resolve (snd (writeProjectFile root slug filePath content fs))
             (getProjectFilesPath root slug))"
    by (simp only: resolve_dir writeProjectFile_inside)
next
  assume "strict_prefix (fst (getProjectFilesPath root slug))
         (fst (join (getProjectFilesPath root slug) filePath))"
    and "fst (createProjectFile root slug filePath content fs) = Inr True"
  then show "is_dir (resolve (snd (createProjectFile root slug filePath content fs))
             (getProjectFilesPath root slug))"
    by (simp only: resolve_dir createProjectFile_inside)
next
  assume "strict_prefix (fst (getProjectFilesPath root slug))
         (fst (join (getProjectFilesPath root slug) filePath))"
    and "fst (renameProjectFile root slug oldPath filePath fs)"
  then show "is_dir (resolve (snd (renameProjectFile root slug oldPath filePath fs))
             (getProjectFilesPath root slug))"
    by (simp only: resolve_dir renameProjectFile_inside)
next
  assume "is_dir (lookup fs q)"
  then show "is_dir (lookup (snd (createProject root input now uuid fs)) q)"
    by (rule createProject_keeps_dir)
next
  assume "is_dir (lookup fs q)"
  then show "is_dir (lookup (snd (saveProjectConfig root slug c now fs)) q)"
    by (rule saveProjectConfig_keeps_dir)
next
  assume "is_dir (lookup fs q)"
  then show "is_dir (lookup (snd (updateProject root slug u now now_save fs)) q)"
    by (rule updateProject_keeps_dir)
next
  assume "is_dir (lookup fs q)"
  then show "is_dir (lookup (snd (writeProjectFile root slug filePath content fs)) q)"
    by (rule writeProjectFile_keeps_dir)
next
  assume "is_dir (lookup fs q)"
  then show "is_dir (lookup (snd (createProjectFile root slug filePath content fs)) q)"
    by (rule createProjectFile_keeps_dir)
next
  assume "is_dir (lookup fs q)" "\<not> prefix (fst (getProjectPath root slug)) q"
  then show "is_dir (lookup (snd (deleteProject root slug fs)) q)"
    by (rule deleteProject_keeps_dir)
next
  assume "is_dir (lookup fs q)" "\<not> prefix (fst (join (getProjectFilesPath root slug) filePath)) q"
  then show "is_dir (lookup (snd (deleteProjectFile root slug filePath fs)) q)"
    by (rule deleteProjectFile_keeps_dir)
next
  assume "is_dir (lookup fs q)" "\<not> prefix (fst (join (getProjectFilesPath root slug) oldPath)) q"
  then show "is_dir (lookup (snd (renameProjectFile root slug oldPath newPath fs)) q)"
    by (rule renameProjectFile_keeps_dir)
qed

theorem files_directory_created_and_kept_witness:
  "resolve (snd (createProject [''w'']
       \<lparr> in_name = ''P'', in_description = None, in_guidelines = None,
         in_enabledSourceSlugs = None \<rparr> 5 ''123e4567-e89b-12d3-a456-426614174000'' (Dir [])))
     (getProjectFilesPath [''w''] ''p'') = Some (Dir [])
   \<and> is_dir (lookup (snd (writeProjectFile [''w''] ''p'' ''notes/a.txt'' ''hello''
       (Dir [(''w'', Dir [(''projects'', Dir [(''p'', Dir [(''files'',
          Dir [(''notes'', Dir [])])])])])])))
     [''w'', ''projects'', ''p'', ''files''])
   \<and> is_dir (lookup (snd (deleteProjectFile [''w''] ''p'' ''notes''
       (Dir [(''w'', Dir [(''projects'', Dir [(''p'', Dir [(''files'',
          Dir [(''notes'', Dir [])])])])])])))
     [''w'', ''projects'', ''p'', ''files''])"
proof -
  let ?in = "\<lparr> in_name = ''P'', in_description = None, in_guidelines = None,
         in_enabledSourceSlugs = None \<rparr>"
  let ?cfg = "\<lparr> pc_id = ''proj_123e4567'', pc_name = ''P'', pc_slug = ''p'', pc_description = None,
          pc_guidelines = None, pc_createdAt = Finite 5, pc_updatedAt = Finite 5,
          pc_enabledSourceSlugs = None \<rparr>"
  let ?fs = "Dir [(''w'', Dir [(''projects'', Dir [(''p'', Dir [(''files'',
       Dir [(''notes'', Dir [])])])])])]"
  let ?q = "[''w'', ''projects'', ''p'', ''files'']"
  have a: "fst (createProject [''w''] ?in 5 ''123e4567-e89b-12d3-a456-426614174000'' (Dir [])) = Inr ?cfg"
    by code_simp
  have b: "is_dir (lookup ?fs ?q)" by simp
  have n: "\<not> prefix (fst (join (getProjectFilesPath [''w''] ''p'') ''notes'')) ?q"
    by code_simp
  from files_directory_created_and_kept
    [where root = "[''w'']" and input = ?in and now = 5
       and uuid = "''123e4567-e89b-12d3-a456-426614174000''" and fs = "Dir []" and cfg = ?cfg]
    a
  have 1: "resolve (snd (createProject [''w''] ?in 5 ''123e4567-e89b-12d3-a456-426614174000'' (Dir [])))
     (getProjectFilesPath [''w''] ''p'') = Some (Dir [])" by simp
  from files_directory_created_and_kept
    [where fs = ?fs and q = ?q and root = "[''w'']"
       and slug = "''p''" and filePath = "''notes/a.txt''" and content = "''hello''"] b
  have 2: "is_dir (lookup (snd (writeProjectFile [''w''] ''p'' ''notes/a.txt'' ''hello'' ?fs)) ?q)"
    by blast
  from files_directory_created_and_kept
    [where fs = ?fs and q = ?q and root = "[''w'']"
       and slug = "''p''" and filePath = "''notes''"] b n
  have 3: "is_dir (lookup (snd (deleteProjectFile [''w''] ''p'' ''notes'' ?fs)) ?q)"
    by blast
  from 1 2 3 show ?thesis by simp
qed

section \<open>Hidden files in the file count\<close>

text \<open>
  Claim C5: hidden entries are left out of \<open>listProjectFiles\<close> at every depth (this
  holds: \<open>listProjectFiles_no_hidden\<close>, \<open>listFiles_without_hidden\<close>) and add nothing
  to the \<open>fileCount\<close> of \<open>getProjectSummary\<close>. \<open>countFiles\<close> has no test on the
  name: a project whose \<^verbatim>\<open>files\<close> directory holds only \<^verbatim>\<open>.hidden\<close> has an empty
  listing and a file count of 1.
\<close>

theorem hidden_file_counted:
  "map_option ps_fileCount
     (getProjectSummary
        (Dir [(''w'', Dir [(''projects'', Dir [(''p'', Dir [
           (''config.json'', File (JSON_stringify (VObj (object_of_config
              \<lparr> pc_id = ''proj_1a2b3c4d'', pc_name = ''P'', pc_slug = ''p'',
                pc_description = None, pc_guidelines = None, pc_createdAt = Finite 5,
                pc_updatedAt = Finite 5, pc_enabledSourceSlugs = None \<rparr>)))),
           (''files'', Dir [(''.hidden'', File ''x'')])])])])])
        [''w''] ''p'' 0)
   = Some 1
   \<and> listProjectFiles (\<lambda>a b. 0)
        (Dir [(''w'', Dir [(''projects'', Dir [(''p'', Dir [
           (''config.json'', File (JSON_stringify (VObj (object_of_config
              \<lparr> pc_id = ''proj_1a2b3c4d'', pc_name = ''P'', pc_slug = ''p'',
                pc_description = None, pc_guidelines = None, pc_createdAt = Finite 5,
                pc_updatedAt = Finite 5, pc_enabledSourceSlugs = None \<rparr>)))),
           (''files'', Dir [(''.hidden'', File ''x'')])])])])])
        [''w''] ''p'' None
   = []"
proof -
  let ?c = "\<lparr> pc_id = ''proj_1a2b3c4d'', pc_name = ''P'', pc_slug = ''p'',
                pc_description = None, pc_guidelines = None, pc_createdAt = Finite 5,
                pc_updatedAt = Finite 5, pc_enabledSourceSlugs = None \<rparr>"
  let ?fs = "Dir [(''w'', Dir [(''projects'', Dir [(''p'', Dir [
           (''config.json'', File (JSON_stringify (VObj (object_of_config ?c)))),
           (''files'', Dir [(''.hidden'', File ''x'')])])])])]"
  have p: "getProjectFilesPath [''w''] ''p'' = ([''w'', ''projects'', ''p'', ''files''], False)"
    by code_simp
  have l: "truthy (loadProjectConfig ?fs [''w''] ''p'')"
    using example_load [of None "[(''files'', Dir [(''.hidden'', File ''x'')])]"] by simp
  have h: "startsWith_dot ''.hidden''" by (simp add: startsWith_dot_def)
  show ?thesis
    using l h by (simp add: getProjectSummary_def countFiles_def p listProjectFiles_def
        subPath_dir_def sort_by_def resolve_plain Let_def)
qed


section \<open>When saving returns\<close>

text \<open>
  When \<open>saveProjectConfig\<close> returns: whenever every existing prefix of the project
  path is a directory and \<^verbatim>\<open>config.json\<close> is absent or a regular file.
\<close>

lemma saveProjectConfig_returns:
  assumes "\<forall>p. prefix p (fst (getProjectPath root slug)) \<and> lookup fs p \<noteq> None
             \<longrightarrow> is_dir (lookup fs p)"
    and "lookup fs (fst (getProjectPath root slug) @ [''config.json'']) = None
         \<or> (\<exists>t. lookup fs (fst (getProjectPath root slug) @ [''config.json'']) = Some (File t))"
  shows "fst (saveProjectConfig root slug c now fs) = Inr ()"
proof (cases rule: saveProjectConfig_cases [of fs root slug c now])
  case (mkdir_failed e)
  have "(\<exists>fs'. mkdir_p (fst (getProjectPath root slug)) fs = Inr fs')
      = (\<forall>p. prefix p (fst (getProjectPath root slug)) \<and> lookup fs p \<noteq> None
            \<longrightarrow> is_dir (lookup fs p))"
    by (rule mkdir_p_returns_iff)
  with assms(1) mkdir_failed(2) show ?thesis by simp
next
  case (write_failed fs1 e)
  let ?P = "fst (getProjectPath root slug)"
  have d: "is_dir (lookup fs1 ?P)"
  proof (cases "existsSync fs (getProjectPath root slug)")
    case True
    then have "lookup fs ?P \<noteq> None" by (rule existsSync_lookup)
    with True write_failed(1) assms(1) show ?thesis by auto
  next
    case False
    with write_failed(1) have "mkdir_p ?P fs = Inr fs1" by simp
    then show ?thesis by (rule mkdir_p_is_dir) simp
  qed
  have "lookup fs1 (?P @ [''config.json'']) = lookup fs (?P @ [''config.json''])"
  proof (cases "existsSync fs (getProjectPath root slug)")
    case True
    with write_failed(1) show ?thesis by simp
  next
    case False
    with write_failed(1) have "mkdir_p ?P fs = Inr fs1" by simp
    then show ?thesis by (rule mkdir_p_apart) simp
  qed
  with assms(2) have "lookup fs1 (?P @ [''config.json'']) = None
         \<or> (\<exists>t. lookup fs1 (?P @ [''config.json'']) = Some (File t))" by simp
  from write_at_in [OF d this] write_failed(2) show ?thesis by simp
next
  case (saved fs1 fs2)
  then show ?thesis by simp
qed


end
